theory Spec2Isabelle
  imports Complex_Main "HOL-Library.Word"
begin

section \<open>JavaScript values read by the client\<close>

text \<open>
  A JavaScript number is an IEEE double. A finite double is modelled by the real number
  it denotes, which is exact for the comparisons \<open>>=\<close> and \<open>>\<close> the client
  performs; the two infinities and NaN are separate values. The only product the client
  computes (\<open>policyRefreshSeconds * 1000\<close>) is the exact product rounded to a double,
  as the multiplication of doubles is.
\<close>

datatype jsnum = Fin real | PosInf | NegInf | NaN

text \<open>\<open>a >= b\<close> on numbers: false as soon as one side is NaN.\<close>

fun js_ge :: "jsnum \<Rightarrow> jsnum \<Rightarrow> bool" where
  "js_ge NaN b = False"
| "js_ge a NaN = False"
| "js_ge PosInf b = True"
| "js_ge a NegInf = True"
| "js_ge (Fin x) (Fin y) = (y \<le> x)"
| "js_ge (Fin x) PosInf = False"
| "js_ge NegInf b = False"

text \<open>\<open>a > b\<close> on numbers.\<close>

fun js_gt :: "jsnum \<Rightarrow> jsnum \<Rightarrow> bool" where
  "js_gt NaN b = False"
| "js_gt a NaN = False"
| "js_gt a PosInf = False"
| "js_gt NegInf b = False"
| "js_gt PosInf b = True"
| "js_gt (Fin x) NegInf = True"
| "js_gt (Fin x) (Fin y) = (y < x)"

text \<open>\<open>a <= b\<close> on numbers (used only to state the freshness window).\<close>

definition js_le :: "jsnum \<Rightarrow> jsnum \<Rightarrow> bool" where
  "js_le a b = js_ge b a"

text \<open>Rounding a real to the nearest integer, a tie going to the even one.\<close>

definition roundTiesToEven :: "real \<Rightarrow> int" where
  "roundTiesToEven q =
     (let f = \<lfloor>q\<rfloor>; d = q - of_int f
      in if d < 1 / 2 then f else if 1 / 2 < d then f + 1 else if even f then f else f + 1)"

text \<open>
  Rounding a real to a double (binary64, round to nearest, ties to even). The doubles
  near \<open>r\<close> are the multiples of \<open>2 ^ e\<close>, where \<open>e\<close> leaves 53 bits to the
  magnitude of \<open>r\<close> and is at least \<open>-1074\<close> (the subnormal range); a result of
  magnitude \<open>2 ^ 1024\<close> or more is an infinity.
\<close>

definition toDouble :: "real \<Rightarrow> jsnum" where
  "toDouble r =
     (if r = 0 then Fin 0
      else
        (let e = max (- 1074) (\<lfloor>log 2 \<bar>r\<bar>\<rfloor> - 52);
             n = roundTiesToEven (\<bar>r\<bar> / 2 powr of_int e);
             v = of_int n * 2 powr of_int e
         in if 2 ^ 1024 \<le> v then (if 0 < r then PosInf else NegInf)
            else Fin (if 0 < r then v else - v)))"

text \<open>\<open>x * 1000\<close> on numbers.\<close>

fun js_times1000 :: "jsnum \<Rightarrow> jsnum" where
  "js_times1000 (Fin x) = toDouble (x * 1000)"
| "js_times1000 PosInf = PosInf"
| "js_times1000 NegInf = NegInf"
| "js_times1000 NaN = NaN"

text \<open>
  The value \<open>res.json()\<close> resolves to. \<open>JObj\<close> lists the own properties of the
  parsed object.
\<close>

datatype json =
    JNull
  | JBool bool
  | JNum jsnum
  | JStr string
  | JArr "json list"
  | JObj "(string \<times> json) list"

text \<open>
  \<open>json?.name\<close> for the property names the client reads (none of them exists on a
  prototype): \<open>None\<close> is \<open>undefined\<close>.
\<close>

fun getProp :: "json \<Rightarrow> string \<Rightarrow> json option" where
  "getProp (JObj kvs) name = map_of kvs name"
| "getProp j name = None"

text \<open>\<open>v ?? d\<close>: the default replaces \<open>undefined\<close> and \<open>null\<close> only.\<close>

fun nullish_or :: "json option \<Rightarrow> json \<Rightarrow> json" where
  "nullish_or None d = d"
| "nullish_or (Some JNull) d = d"
| "nullish_or (Some v) d = v"

text \<open>Truthiness of a value, as \<open>&&\<close>, \<open>||\<close> and \<open>?:\<close> test it.\<close>

fun truthy :: "json \<Rightarrow> bool" where
  "truthy JNull = False"
| "truthy (JBool b) = b"
| "truthy (JNum (Fin x)) = (x \<noteq> 0)"
| "truthy (JNum NaN) = False"
| "truthy (JNum n) = True"
| "truthy (JStr s) = (s \<noteq> [])"
| "truthy (JArr xs) = True"
| "truthy (JObj kvs) = True"

text \<open>\<open>v || d\<close>.\<close>

fun falsy_or :: "json option \<Rightarrow> json \<Rightarrow> json" where
  "falsy_or None d = d"
| "falsy_or (Some v) d = (if truthy v then v else d)"

text \<open>
  Whether converting a parsed value to a primitive raises \<open>TypeError\<close>, as
  \<open>String(v)\<close> and \<open>Number(v)\<close> do first. An object whose own property
  \<open>toString\<close> shadows the inherited method has no callable conversion left; an array is
  joined, which converts each element that is not \<open>null\<close>.
\<close>

fun toPrimitiveRaises :: "json \<Rightarrow> bool" where
  "toPrimitiveRaises (JObj kvs) = (map_of kvs ''toString'' \<noteq> None)"
| "toPrimitiveRaises (JArr xs) = list_ex toPrimitiveRaises xs"
| "toPrimitiveRaises j = False"

section \<open>Errors and the fail-open wrapper\<close>

datatype net_error = Timeout | TransportError

datatype error =
    NotInitialized
  | UnsupportedImageInput
  | BlobReadFailed
  | FetchFailed net_error
  | BodyFailed
  | TypeError

text \<open>
  What \<open>await fetch(...)\<close> yields under the deadline of \<open>withTimeout\<close>: a rejection
  (the abort of the timer, or a transport error) or a response with its \<open>ok\<close> flag; and
  what \<open>await res.json()\<close> yields: a rejection (unparseable body, or the abort striking
  while the body is read) or the parsed value.
\<close>

datatype fetch_result = Rejected net_error | Resolved bool

datatype body_result = BodyRejected | BodyJson json

text \<open>
  \<open>safeApiCall(label, defaultResult, fn)\<close>: the value of \<open>fn\<close>, or the default when
  \<open>fn\<close> raised. The label only goes to the console.
\<close>

fun safeApiCall :: "string \<Rightarrow> 'a \<Rightarrow> error + 'a \<Rightarrow> 'a" where
  "safeApiCall label defaultResult (Inl e) = defaultResult"
| "safeApiCall label defaultResult (Inr v) = v"

section \<open>Configuration, policy and client\<close>

datatype moderation_mode = ON_DEVICE_ONLY | CLOUD_ONLY | HYBRID

record config =
  apiBaseUrl :: string
  sendEvents :: bool
  policyRefreshSeconds :: jsnum
  mode :: moderation_mode
  timeoutMs :: jsnum

text \<open>The optional fields a caller passes to \<open>init\<close>.\<close>

record config_arg =
  arg_apiBaseUrl :: "string option"
  arg_sendEvents :: "bool option"
  arg_policyRefreshSeconds :: "jsnum option"
  arg_mode :: "moderation_mode option"
  arg_timeoutMs :: "jsnum option"

definition DEFAULT_CONFIG :: config where
  "DEFAULT_CONFIG =
     \<lparr>apiBaseUrl = ''http://localhost:8080'', sendEvents = True,
      policyRefreshSeconds = Fin 60, mode = HYBRID, timeoutMs = Fin 20000\<rparr>"

text \<open>\<open>{ ...DEFAULT_CONFIG, ...(config || {}) }\<close>.\<close>

definition mergeConfig :: "config_arg option \<Rightarrow> config" where
  "mergeConfig a =
     (case a of
        None \<Rightarrow> DEFAULT_CONFIG
      | Some c \<Rightarrow>
          \<lparr>apiBaseUrl = (case arg_apiBaseUrl c of None \<Rightarrow> apiBaseUrl DEFAULT_CONFIG | Some v \<Rightarrow> v),
           sendEvents = (case arg_sendEvents c of None \<Rightarrow> sendEvents DEFAULT_CONFIG | Some v \<Rightarrow> v),
           policyRefreshSeconds =
             (case arg_policyRefreshSeconds c of
                None \<Rightarrow> policyRefreshSeconds DEFAULT_CONFIG | Some v \<Rightarrow> v),
           mode = (case arg_mode c of None \<Rightarrow> mode DEFAULT_CONFIG | Some v \<Rightarrow> v),
           timeoutMs = (case arg_timeoutMs c of None \<Rightarrow> timeoutMs DEFAULT_CONFIG | Some v \<Rightarrow> v)\<rparr>)"

text \<open>
  The three toggles are stored as received (\<open>json?.blockToxicity ?? true\<close> coerces
  nothing), so they hold any value that is neither \<open>undefined\<close> nor \<open>null\<close>; the
  thresholds went through \<open>Number\<close>.
\<close>

record policy =
  blockToxicity :: json
  blockSexual :: json
  blockNsfwImages :: json
  toxicityThreshold :: jsnum
  sexualThreshold :: jsnum
  nsfwThreshold :: jsnum

definition DEFAULT_POLICY :: policy where
  "DEFAULT_POLICY =
     \<lparr>blockToxicity = JBool True, blockSexual = JBool True, blockNsfwImages = JBool True,
      toxicityThreshold = Fin 0.85, sexualThreshold = Fin 0.85, nsfwThreshold = Fin 0.85\<rparr>"

text \<open>
  The client object. \<open>policyRefreshPromise\<close> is the field \<open>_policyRefreshPromise\<close>:
  \<open>None\<close> is \<open>null\<close>, \<open>Some h\<close> the promise with number \<open>h\<close> in the promise
  table of the event loop below.
\<close>

record client =
  apiKey :: string
  config :: config
  cachedPolicy :: policy
  policyLastFetchMs :: int
  policyRefreshPromise :: "nat option"

text \<open>The constructor.\<close>

definition WatchtowerClient :: "string \<Rightarrow> config_arg option \<Rightarrow> client" where
  "WatchtowerClient key a =
     \<lparr>apiKey = key, config = mergeConfig a, cachedPolicy = DEFAULT_POLICY,
      policyLastFetchMs = 0, policyRefreshPromise = None\<rparr>"

section \<open>Image moderation\<close>

type_synonym bytes = "8 word list"

text \<open>
  The argument of \<open>checkImageJpeg\<close>. A blob carries what its \<open>arrayBuffer()\<close> resolves
  to (\<open>None\<close> when that read rejects); \<open>InOther\<close> is any value that is none of the
  three classes, for instance a string.
\<close>

datatype image_input =
    InUint8Array bytes
  | InArrayBuffer bytes
  | InBlob "bytes option"
  | InOther json

fun toUint8Array :: "image_input \<Rightarrow> error + bytes" where
  "toUint8Array (InUint8Array b) = Inr b"
| "toUint8Array (InArrayBuffer b) = Inr b"
| "toUint8Array (InBlob (Some b)) = Inr b"
| "toUint8Array (InBlob None) = Inl BlobReadFailed"
| "toUint8Array (InOther v) = Inl UnsupportedImageInput"

text \<open>
  \<open>ImageModerationResult\<close>. The decision is whatever truthy value the remote sent
  (\<open>json?.decision || "ALLOW"\<close>); \<open>nsfwScore = None\<close> is \<open>null\<close>.
\<close>

record image_result =
  decision :: json
  nsfwScore :: "jsnum option"
  reasons :: "json list"

definition ALLOW :: json where "ALLOW = JStr ''ALLOW''"
definition BLOCK :: json where "BLOCK = JStr ''BLOCK''"

fun applyPolicyToImageResult :: "image_result \<Rightarrow> policy \<Rightarrow> image_result" where
  "applyPolicyToImageResult result pol =
     (if truthy (blockNsfwImages pol) \<and>
         (case nsfwScore result of None \<Rightarrow> False | Some s \<Rightarrow> js_ge s (nsfwThreshold pol))
      then result\<lparr>decision := BLOCK, reasons := reasons result @ [JStr ''policy_nsfw'']\<rparr>
      else result)"

text \<open>The three fields read from a parsed image response.\<close>

definition remoteScore :: "json \<Rightarrow> jsnum option" where
  "remoteScore j = (case getProp j ''nsfwScore'' of Some (JNum n) \<Rightarrow> Some n | _ \<Rightarrow> None)"

definition remoteReasons :: "json \<Rightarrow> json list" where
  "remoteReasons j = (case getProp j ''reasons'' of Some (JArr xs) \<Rightarrow> xs | _ \<Rightarrow> [])"

definition remoteDecision :: "json \<Rightarrow> json" where
  "remoteDecision j = falsy_or (getProp j ''decision'') ALLOW"

text \<open>
  The function \<open>checkImageJpeg\<close> hands to \<open>safeApiCall\<close>. Its first step,
  \<open>await this._getPolicyMaybeRefresh()\<close>, cannot raise and yields a policy; that policy
  is the argument \<open>pol\<close> here, and the store that produces it is modelled in the last
  sections. The telemetry call is detached (\<open>.catch(() => {})\<close>), writes no field of the
  client and its arguments cannot raise here, so it leaves no trace in the result.
\<close>

definition checkImageJpeg_fn ::
  "client \<Rightarrow> policy \<Rightarrow> image_input \<Rightarrow> fetch_result \<Rightarrow> body_result \<Rightarrow> error + image_result" where
  "checkImageJpeg_fn c pol jpeg fr br =
     (case toUint8Array jpeg of
        Inl e \<Rightarrow> Inl e
      | Inr body \<Rightarrow>
          (case fr of
             Rejected e \<Rightarrow> Inl (FetchFailed e)
           | Resolved ok \<Rightarrow>
               if \<not> ok
               then Inr \<lparr>decision = ALLOW, nsfwScore = None, reasons = [JStr ''cloud_unavailable'']\<rparr>
               else
                 (case br of
                    BodyRejected \<Rightarrow> Inl BodyFailed
                  | BodyJson j \<Rightarrow>
                      Inr (applyPolicyToImageResult
                             \<lparr>decision = remoteDecision j, nsfwScore = remoteScore j,
                              reasons = remoteReasons j\<rparr> pol))))"

definition checkImageJpeg ::
  "client \<Rightarrow> policy \<Rightarrow> image_input \<Rightarrow> fetch_result \<Rightarrow> body_result \<Rightarrow> image_result" where
  "checkImageJpeg c pol jpeg fr br =
     safeApiCall ''checkImageJpeg''
       \<lparr>decision = ALLOW, nsfwScore = None, reasons = [JStr ''sdk_network_error'']\<rparr>
       (checkImageJpeg_fn c pol jpeg fr br)"

section \<open>Text moderation\<close>

record content_meta =
  userId :: "string option"
  sessionId :: "string option"
  contentId :: "string option"
  meta_locale :: "string option"
  channel :: "string option"

text \<open>
  The function \<open>checkText\<close> hands to \<open>safeApiCall\<close>. The awaited policy is discarded.
  With telemetry on, the argument \<open>String(isTextPermitted)\<close> of the detached
  \<open>emitEvent\<close> call is evaluated in this frame and may raise.
\<close>

definition checkText_fn ::
  "client \<Rightarrow> string \<Rightarrow> content_meta \<Rightarrow> fetch_result \<Rightarrow> body_result \<Rightarrow> error + json" where
  "checkText_fn c txt meta fr br =
     (case fr of
        Rejected e \<Rightarrow> Inl (FetchFailed e)
      | Resolved ok \<Rightarrow>
          if \<not> ok then Inr (JBool True)
          else
            (case br of
               BodyRejected \<Rightarrow> Inl BodyFailed
             | BodyJson j \<Rightarrow>
                 (let isTextPermitted = nullish_or (getProp j ''isTextPermitted'') (JBool True)
                  in if sendEvents (config c) \<and> toPrimitiveRaises isTextPermitted
                     then Inl TypeError
                     else Inr isTextPermitted)))"

definition checkText ::
  "client \<Rightarrow> string \<Rightarrow> content_meta \<Rightarrow> fetch_result \<Rightarrow> body_result \<Rightarrow> json" where
  "checkText c txt meta fr br =
     safeApiCall ''checkText'' (JBool True) (checkText_fn c txt meta fr br)"

section \<open>The singleton facade\<close>

text \<open>
  \<open>Watchtower\<close> holds \<open>client\<close>, \<open>null\<close> until \<open>init\<close>. \<open>Inl\<close> is an error the
  caller observes (a synchronous throw or a rejected promise).
\<close>

definition init :: "string \<Rightarrow> config_arg option \<Rightarrow> client option" where
  "init key a = Some (WatchtowerClient key a)"

definition requireClient :: "client option \<Rightarrow> error + client" where
  "requireClient s = (case s of None \<Rightarrow> Inl NotInitialized | Some c \<Rightarrow> Inr c)"

definition Watchtower_checkText ::
  "client option \<Rightarrow> string \<Rightarrow> content_meta \<Rightarrow> fetch_result \<Rightarrow> body_result \<Rightarrow> error + json" where
  "Watchtower_checkText s txt meta fr br =
     (case requireClient s of
        Inl e \<Rightarrow> Inl e
      | Inr c \<Rightarrow> Inr (checkText c txt meta fr br))"

definition Watchtower_checkImageJpeg ::
  "client option \<Rightarrow> policy \<Rightarrow> image_input \<Rightarrow> fetch_result \<Rightarrow> body_result
     \<Rightarrow> error + image_result" where
  "Watchtower_checkImageJpeg s pol jpeg fr br =
     (case requireClient s of
        Inl e \<Rightarrow> Inl e
      | Inr c \<Rightarrow> Inr (checkImageJpeg c pol jpeg fr br))"

section \<open>Policy refresh\<close>

text \<open>
  \<open>Number(v)\<close> on a parsed value. Reading a numeric literal out of a string, or out of
  the text an array is joined to, is the work of the language runtime (rounding to a
  double included) and not of this client: it is the parameter \<open>conv\<close>.
\<close>

definition js_Number :: "(json \<Rightarrow> jsnum) \<Rightarrow> json \<Rightarrow> error + jsnum" where
  "js_Number conv v =
     (case v of
        JNull \<Rightarrow> Inr (Fin 0)
      | JBool b \<Rightarrow> Inr (Fin (if b then 1 else 0))
      | JNum n \<Rightarrow> Inr n
      | JStr s \<Rightarrow> Inr (conv v)
      | JArr xs \<Rightarrow> if toPrimitiveRaises v then Inl TypeError else Inr (conv v)
      | JObj kvs \<Rightarrow> if toPrimitiveRaises v then Inl TypeError else Inr NaN)"

text \<open>
  The object literal \<open>policy\<close> built in \<open>refreshPolicy\<close> from the parsed body: missing
  or \<open>null\<close> toggles become \<open>true\<close>, missing or \<open>null\<close> thresholds \<open>0.85\<close>, every
  threshold goes through \<open>Number\<close>.
\<close>

definition refreshPolicy_policy :: "(json \<Rightarrow> jsnum) \<Rightarrow> json \<Rightarrow> error + policy" where
  "refreshPolicy_policy conv j =
     (case js_Number conv (nullish_or (getProp j ''toxicityThreshold'') (JNum (Fin 0.85))) of
        Inl e \<Rightarrow> Inl e
      | Inr tt \<Rightarrow>
     (case js_Number conv (nullish_or (getProp j ''sexualThreshold'') (JNum (Fin 0.85))) of
        Inl e \<Rightarrow> Inl e
      | Inr st \<Rightarrow>
     (case js_Number conv (nullish_or (getProp j ''nsfwThreshold'') (JNum (Fin 0.85))) of
        Inl e \<Rightarrow> Inl e
      | Inr nt \<Rightarrow>
          Inr \<lparr>blockToxicity = nullish_or (getProp j ''blockToxicity'') (JBool True),
               blockSexual = nullish_or (getProp j ''blockSexual'') (JBool True),
               blockNsfwImages = nullish_or (getProp j ''blockNsfwImages'') (JBool True),
               toxicityThreshold = tt, sexualThreshold = st, nsfwThreshold = nt\<rparr>)))"

section \<open>The policy store on the event loop\<close>

text \<open>
  JavaScript runs one callback at a time; an \<open>async\<close> function runs until its next
  \<open>await\<close> and is resumed by a later callback. The state of the store between two
  callbacks is a \<open>world\<close>:
  \<^item> \<open>cl\<close>, the client object;
  \<^item> \<open>promises\<close>, every promise \<open>refreshPolicy\<close> ever stored in
    \<open>_policyRefreshPromise\<close>, by number;
  \<^item> \<open>tasks\<close>, the \<open>safeApiCall\<close> bodies of \<open>refreshPolicy\<close> that are suspended: the
    promise they will settle, the \<open>await\<close> they wait at, and the \<open>defaultResult\<close> they
    captured;
  \<^item> \<open>owners\<close>, the \<open>refreshPolicy\<close> calls suspended at
    \<open>await this._policyRefreshPromise\<close> (caller, promise);
  \<^item> \<open>attached\<close>, the calls that returned the promise they found (caller, promise);
  \<^item> \<open>delivered\<close>, the policies callers have received (caller, promise or \<open>None\<close> when
    served from the cache, policy);
  \<^item> \<open>netCalls\<close>, the number of \<open>fetch\<close> calls to the policy endpoint so far.
\<close>

datatype promise = Pending | Fulfilled policy

datatype suspension = AwaitFetch | AwaitJson

record world =
  cl :: client
  promises :: "promise list"
  tasks :: "(nat \<times> suspension \<times> policy) list"
  owners :: "(nat \<times> nat) list"
  attached :: "(nat \<times> nat) list"
  delivered :: "(nat \<times> nat option \<times> policy) list"
  netCalls :: nat

text \<open>The world right after \<open>Watchtower.init(apiKey, config)\<close>.\<close>

definition boot :: "string \<Rightarrow> config_arg option \<Rightarrow> world" where
  "boot key a =
     \<lparr>cl = WatchtowerClient key a, promises = [], tasks = [], owners = [], attached = [],
      delivered = [], netCalls = 0\<rparr>"

text \<open>
  \<open>refreshPolicy()\<close> up to its first suspension. With a promise in the field the call
  returns it. Otherwise \<open>safeApiCall\<close> starts: its body captures \<open>this.cachedPolicy\<close> as
  default, issues the \<open>fetch\<close> and suspends there; the new promise is stored and the
  call suspends at \<open>await this._policyRefreshPromise\<close>.
\<close>

definition refreshPolicy :: "world \<Rightarrow> nat \<Rightarrow> world" where
  "refreshPolicy w caller =
     (case policyRefreshPromise (cl w) of
        Some h \<Rightarrow> w\<lparr>attached := attached w @ [(caller, h)]\<rparr>
      | None \<Rightarrow>
          (let h = length (promises w)
           in w\<lparr>cl := (cl w)\<lparr>policyRefreshPromise := Some h\<rparr>,
                promises := promises w @ [Pending],
                tasks := tasks w @ [(h, AwaitFetch, cachedPolicy (cl w))],
                owners := owners w @ [(caller, h)],
                netCalls := Suc (netCalls w)\<rparr>))"

text \<open>The freshness test of \<open>_getPolicyMaybeRefresh\<close> at clock reading \<open>now\<close>.\<close>

definition ageMs :: "client \<Rightarrow> int \<Rightarrow> jsnum" where
  "ageMs c now = Fin (real_of_int (now - policyLastFetchMs c))"

definition refreshWindowMs :: "client \<Rightarrow> jsnum" where
  "refreshWindowMs c = js_times1000 (policyRefreshSeconds (config c))"

definition isStale :: "client \<Rightarrow> int \<Rightarrow> bool" where
  "isStale c now = js_gt (ageMs c now) (refreshWindowMs c)"

definition getPolicyMaybeRefresh :: "world \<Rightarrow> nat \<Rightarrow> int \<Rightarrow> world" where
  "getPolicyMaybeRefresh w caller now =
     (if isStale (cl w) now
      then refreshPolicy w caller
      else w\<lparr>delivered := delivered w @ [(caller, None, cachedPolicy (cl w))]\<rparr>)"

text \<open>Promise \<open>h\<close> is fulfilled with \<open>p\<close> and the body that settled it is gone.\<close>

definition settle :: "world \<Rightarrow> nat \<Rightarrow> policy \<Rightarrow> world" where
  "settle w h p =
     w\<lparr>promises := (promises w)[h := Fulfilled p],
       tasks := filter (\<lambda>t. fst t \<noteq> h) (tasks w)\<rparr>"

text \<open>
  The body of promise \<open>h\<close> resumes from \<open>await fetch(...)\<close>: a rejection is caught by
  \<open>safeApiCall\<close>, a response that is not \<open>ok\<close> returns \<open>this.cachedPolicy\<close>, an \<open>ok\<close>
  one suspends again at \<open>await res.json()\<close>.
\<close>

definition fetchDone :: "world \<Rightarrow> nat \<Rightarrow> fetch_result \<Rightarrow> world option" where
  "fetchDone w h fr =
     (case map_of (tasks w) h of
        Some (AwaitFetch, d) \<Rightarrow>
          (case fr of
             Rejected e \<Rightarrow> Some (settle w h (safeApiCall ''refreshPolicy'' d (Inl (FetchFailed e))))
           | Resolved ok \<Rightarrow>
               if \<not> ok
               then Some (settle w h (safeApiCall ''refreshPolicy'' d (Inr (cachedPolicy (cl w)))))
               else Some (w\<lparr>tasks := map (\<lambda>t. if fst t = h then (h, AwaitJson, d) else t)
                                        (tasks w)\<rparr>))
      | _ \<Rightarrow> None)"

text \<open>
  The body of promise \<open>h\<close> resumes from \<open>await res.json()\<close> at clock reading \<open>now\<close>:
  a rejection, or a raise while the policy is built, is caught by \<open>safeApiCall\<close>;
  otherwise the policy is stored, the fetch time set, and the policy returned.
\<close>

definition jsonDone :: "(json \<Rightarrow> jsnum) \<Rightarrow> world \<Rightarrow> nat \<Rightarrow> body_result \<Rightarrow> int \<Rightarrow> world option" where
  "jsonDone conv w h br now =
     (case map_of (tasks w) h of
        Some (AwaitJson, d) \<Rightarrow>
          (case br of
             BodyRejected \<Rightarrow> Some (settle w h (safeApiCall ''refreshPolicy'' d (Inl BodyFailed)))
           | BodyJson j \<Rightarrow>
               (case refreshPolicy_policy conv j of
                  Inl e \<Rightarrow> Some (settle w h (safeApiCall ''refreshPolicy'' d (Inl e)))
                | Inr p \<Rightarrow>
                    Some (settle (w\<lparr>cl := (cl w)\<lparr>cachedPolicy := p, policyLastFetchMs := now\<rparr>\<rparr>)
                            h (safeApiCall ''refreshPolicy'' d (Inr p)))))
      | _ \<Rightarrow> None)"

text \<open>
  The call that stored promise \<open>h\<close> resumes from \<open>await this._policyRefreshPromise\<close>
  once the promise is fulfilled: its \<open>finally\<close> block resets the field, and the caller
  receives the value.
\<close>

definition resumeOwner :: "world \<Rightarrow> nat \<Rightarrow> nat \<Rightarrow> world option" where
  "resumeOwner w caller h =
     (if (caller, h) \<in> set (owners w) \<and> h < length (promises w)
      then (case promises w ! h of
              Pending \<Rightarrow> None
            | Fulfilled p \<Rightarrow>
                Some (w\<lparr>cl := (cl w)\<lparr>policyRefreshPromise := None\<rparr>,
                        owners := remove1 (caller, h) (owners w),
                        delivered := delivered w @ [(caller, Some h, p)]\<rparr>))
      else None)"

text \<open>A caller that was handed promise \<open>h\<close> receives its value once it is fulfilled.\<close>

definition resumeAttached :: "world \<Rightarrow> nat \<Rightarrow> nat \<Rightarrow> world option" where
  "resumeAttached w caller h =
     (if (caller, h) \<in> set (attached w) \<and> h < length (promises w)
      then (case promises w ! h of
              Pending \<Rightarrow> None
            | Fulfilled p \<Rightarrow>
                Some (w\<lparr>attached := remove1 (caller, h) (attached w),
                        delivered := delivered w @ [(caller, Some h, p)]\<rparr>))
      else None)"

text \<open>
  One callback of the event loop. \<open>None\<close>: the callback cannot run in this world (no
  such suspended body, or its promise is still pending).
\<close>

datatype event =
    CallRefresh nat
  | CallGet nat int
  | FetchDone nat fetch_result
  | JsonDone nat body_result int
  | ResumeOwner nat nat
  | ResumeAttached nat nat

fun step :: "(json \<Rightarrow> jsnum) \<Rightarrow> world \<Rightarrow> event \<Rightarrow> world option" where
  "step conv w (CallRefresh caller) = Some (refreshPolicy w caller)"
| "step conv w (CallGet caller now) = Some (getPolicyMaybeRefresh w caller now)"
| "step conv w (FetchDone h fr) = fetchDone w h fr"
| "step conv w (JsonDone h br now) = jsonDone conv w h br now"
| "step conv w (ResumeOwner caller h) = resumeOwner w caller h"
| "step conv w (ResumeAttached caller h) = resumeAttached w caller h"

fun exec :: "(json \<Rightarrow> jsnum) \<Rightarrow> world \<Rightarrow> event list \<Rightarrow> world option" where
  "exec conv w [] = Some w"
| "exec conv w (e # es) = (case step conv w e of None \<Rightarrow> None | Some w' \<Rightarrow> exec conv w' es)"

section \<open>Notions used to state the properties of the store\<close>

text \<open>The promises of the table that are still pending.\<close>

definition pendingPromises :: "world \<Rightarrow> nat list" where
  "pendingPromises w = filter (\<lambda>h. promises w ! h = Pending) [0..<length (promises w)]"

text \<open>
  What one refresh produces from the outcome of its two awaits: \<open>Some\<close> policy when the
  response is \<open>ok\<close>, its body parses and the policy can be built; \<open>None\<close> for a failed
  refresh.
\<close>

definition refreshResult :: "(json \<Rightarrow> jsnum) \<Rightarrow> fetch_result \<Rightarrow> body_result \<Rightarrow> policy option" where
  "refreshResult conv fr br =
     (case fr of
        Rejected e \<Rightarrow> None
      | Resolved ok \<Rightarrow>
          if \<not> ok then None
          else (case br of
                  BodyRejected \<Rightarrow> None
                | BodyJson j \<Rightarrow>
                    (case refreshPolicy_policy conv j of Inl e \<Rightarrow> None | Inr p \<Rightarrow> Some p)))"

text \<open>The callbacks through which the body of promise \<open>h\<close> runs to its end.\<close>

definition settleEvents :: "nat \<Rightarrow> fetch_result \<Rightarrow> body_result \<Rightarrow> int \<Rightarrow> event list" where
  "settleEvents h fr br t =
     (case fr of
        Rejected e \<Rightarrow> [FetchDone h fr]
      | Resolved ok \<Rightarrow> if ok then [FetchDone h fr, JsonDone h br t] else [FetchDone h fr])"

text \<open>
  A burst of concurrent accesses: caller \<open>c0\<close> and then every caller of \<open>others\<close> asks
  for the policy before the fetch returns; the fetch then runs to its end, and every
  caller is resumed.
\<close>

definition burst ::
  "nat \<Rightarrow> nat \<Rightarrow> int \<Rightarrow> (nat \<times> int) list \<Rightarrow> fetch_result \<Rightarrow> body_result \<Rightarrow> int \<Rightarrow> event list" where
  "burst h c0 t0 others fr br t =
     CallGet c0 t0 # map (\<lambda>x. CallGet (fst x) (snd x)) others
       @ settleEvents h fr br t
       @ ResumeOwner c0 h # map (\<lambda>x. ResumeAttached (fst x) h) others"

text \<open>A callback in which a refresh fails, and one in which it succeeds.\<close>

fun refreshFails :: "(json \<Rightarrow> jsnum) \<Rightarrow> event \<Rightarrow> bool" where
  "refreshFails conv (FetchDone h (Rejected e)) = True"
| "refreshFails conv (FetchDone h (Resolved ok)) = (\<not> ok)"
| "refreshFails conv (JsonDone h BodyRejected t) = True"
| "refreshFails conv (JsonDone h (BodyJson j) t) = isl (refreshPolicy_policy conv j)"
| "refreshFails conv ev = False"


text \<open>
  The shape of every world the event loop can reach: one network call per promise; with
  no promise in the field nothing is suspended; with promise \<open>h\<close> in the field exactly
  one call waits to reset it, and either the body of \<open>h\<close> is the only one suspended,
  with the cached policy as its default, or \<open>h\<close> is fulfilled; no other promise is
  pending; and every delivered policy is the value of the promise it came from.
\<close>

definition store_inv :: "world \<Rightarrow> bool" where
  "store_inv w \<longleftrightarrow>
     netCalls w = length (promises w)
   \<and> (policyRefreshPromise (cl w) = None \<longrightarrow> tasks w = [] \<and> owners w = [])
   \<and> (\<forall>h. policyRefreshPromise (cl w) = Some h \<longrightarrow>
          h < length (promises w) \<and> (\<exists>c. owners w = [(c, h)]) \<and>
          (tasks w = [] \<and> promises w ! h \<noteq> Pending
           \<or> (\<exists>s. tasks w = [(h, s, cachedPolicy (cl w))]) \<and> promises w ! h = Pending))
   \<and> (\<forall>h < length (promises w). policyRefreshPromise (cl w) \<noteq> Some h \<longrightarrow> promises w ! h \<noteq> Pending)
   \<and> (\<forall>x \<in> set (attached w). snd x < length (promises w))
   \<and> (\<forall>x \<in> set (delivered w). \<forall>h. fst (snd x) = Some h \<longrightarrow>
          h < length (promises w) \<and> promises w ! h = Fulfilled (snd (snd x)))"


section \<open>Rounding to a double\<close>

lemma roundTiesToEven_of_int [simp]: "roundTiesToEven (of_int m) = m"
  by (simp add: roundTiesToEven_def)

lemma toDouble_eq:
  assumes "r \<noteq> 0" and "e = max (- 1074) (\<lfloor>log 2 \<bar>r\<bar>\<rfloor> - 52)"
    and "n = roundTiesToEven (\<bar>r\<bar> / 2 powr of_int e)"
    and "v = of_int n * 2 powr of_int e" and "\<not> 2 ^ 1024 \<le> v"
  shows "toDouble r = Fin (if 0 < r then v else - v)"
  using assms by (simp add: toDouble_def Let_def)

lemma toDouble_of_int:
  assumes "\<bar>x\<bar> < 2 ^ 53"
  shows "toDouble (of_int x) = Fin (of_int x)"
proof (cases "x = 0")
  case True
  then show ?thesis by (simp add: toDouble_def)
next
  case False
  define a :: real where "a = \<bar>of_int x\<bar>"
  define k where "k = \<lfloor>log 2 a\<rfloor>"
  from False have a1: "1 \<le> a" by (simp add: a_def)
  from assms have a2: "a < 2 ^ 53"
  proof -
    from assms have "real_of_int \<bar>x\<bar> < real_of_int (2 ^ 53)" by (simp only: of_int_less_iff)
    then show ?thesis by (simp add: a_def)
  qed
  have k0: "0 \<le> k" using a1 by (simp add: k_def)
  have "log 2 a < 53" using a1 a2 by (simp add: log_less_iff powr_realpow[symmetric])
  then have k52: "k \<le> 52" by (simp add: k_def)
  define s where "s = nat (52 - k)"
  have e: "- int s = max (- 1074) (\<lfloor>log 2 \<bar>real_of_int x\<bar>\<rfloor> - 52)"
    using k0 k52 by (simp add: s_def k_def a_def)
  have p: "2 powr of_int (- int s) = 1 / (2::real) ^ s"
    by (simp add: powr_minus powr_realpow inverse_eq_divide)
  have q: "\<bar>real_of_int x\<bar> / (1 / 2 ^ s) = of_int (\<bar>x\<bar> * 2 ^ s)" by simp
  have n: "\<bar>x\<bar> * 2 ^ s = roundTiesToEven (\<bar>real_of_int x\<bar> / 2 powr of_int (- int s))"
    unfolding p q by (rule roundTiesToEven_of_int[symmetric])
  have v: "a = of_int (\<bar>x\<bar> * 2 ^ s) * 2 powr of_int (- int s)"
    unfolding p by (simp add: a_def)
  have big: "\<not> (2 ^ 1024 \<le> a)"
  proof -
    have "(2::real) ^ 53 \<le> 2 ^ 1024" by (rule power_increasing) simp_all
    with a2 show ?thesis by linarith
  qed
  from False have nz: "real_of_int x \<noteq> 0" by simp
  have "toDouble (of_int x) = Fin (if 0 < (of_int x :: real) then a else - a)"
    by (rule toDouble_eq[OF nz e n v big])
  also have "(if 0 < (of_int x :: real) then a else - a) = of_int x"
    by (simp add: a_def)
  finally show ?thesis .
qed

lemma toDouble_60000 [simp]: "toDouble 60000 = Fin 60000"
  using toDouble_of_int[of 60000] by simp

lemma toDouble_2000000000000 [simp]: "toDouble 2000000000000 = Fin 2000000000000"
  using toDouble_of_int[of 2000000000000] by simp

lemma floor_log2_eq:
  assumes "2 ^ k \<le> a" "a < 2 ^ Suc k"
  shows "\<lfloor>log 2 a\<rfloor> = int k"
proof -
  have "0 < (2::real) ^ k" by simp
  with assms(1) have pos: "0 < a" by linarith
  have "real k \<le> log 2 a" using assms(1) pos by (simp add: le_log_iff powr_realpow)
  moreover have "log 2 a < real k + 1"
    using assms(2) pos by (simp add: log_less_iff powr_realpow powr_add)
  ultimately show ?thesis by linarith
qed

text \<open>
  A product that falls halfway between two doubles: \<open>0.5609999999999999\<close> is the
  double \<open>78953730967339 / 2 ^ 47\<close>, and its product with 1000 is the double 561.
\<close>

lemma toDouble_tie_example:
  "toDouble (78953730967339 / 140737488355328 * 1000) = Fin 561"
proof -
  define r :: real where "r = 78953730967339 / 140737488355328 * 1000"
  have nz: "r \<noteq> 0" by (simp add: r_def)
  have ar: "\<bar>r\<bar> = r" by (simp add: r_def)
  have l: "\<lfloor>log 2 \<bar>r\<bar>\<rfloor> = int 9"
    unfolding ar by (rule floor_log2_eq) (simp_all add: r_def)
  have e: "- 43 = max (- 1074) (\<lfloor>log 2 \<bar>r\<bar>\<rfloor> - 52)" by (simp add: l)
  have p: "2 powr of_int (- 43) = 1 / (2::real) ^ 43"
    using powr_realpow[of 2 43] by (simp add: powr_minus inverse_eq_divide)
  have q: "\<bar>r\<bar> / (1 / 2 ^ 43) = 4934608185458687 + 1 / 2" by (simp add: ar r_def)
  have fl: "\<lfloor>4934608185458687 + 1 / (2::real)\<rfloor> = 4934608185458687" by linarith
  have n: "4934608185458688 = roundTiesToEven (\<bar>r\<bar> / 2 powr of_int (- 43))"
    unfolding p q by (simp add: roundTiesToEven_def fl Let_def)
  have v: "(561::real) = of_int 4934608185458688 * 2 powr of_int (- 43)"
    unfolding p by simp
  have big: "\<not> (2 ^ 1024 \<le> (561::real))"
  proof -
    have "(2::real) ^ 10 \<le> 2 ^ 1024" by (rule power_increasing) simp_all
    then show ?thesis by simp
  qed
  from toDouble_eq[OF nz e n v big] show ?thesis by (simp add: r_def)
qed

section \<open>The shape of reachable worlds is preserved\<close>

lemma store_invD:
  assumes "store_inv w"
  shows "netCalls w = length (promises w)"
    and "policyRefreshPromise (cl w) = None \<Longrightarrow> tasks w = [] \<and> owners w = []"
    and "policyRefreshPromise (cl w) = Some h \<Longrightarrow>
          h < length (promises w) \<and> (\<exists>c. owners w = [(c, h)]) \<and>
          (tasks w = [] \<and> promises w ! h \<noteq> Pending
           \<or> (\<exists>s. tasks w = [(h, s, cachedPolicy (cl w))]) \<and> promises w ! h = Pending)"
    and "k < length (promises w) \<Longrightarrow> policyRefreshPromise (cl w) \<noteq> Some k \<Longrightarrow> promises w ! k \<noteq> Pending"
    and "x \<in> set (attached w) \<Longrightarrow> snd x < length (promises w)"
    and "y \<in> set (delivered w) \<Longrightarrow> fst (snd y) = Some j \<Longrightarrow>
          j < length (promises w) \<and> promises w ! j = Fulfilled (snd (snd y))"
  using assms unfolding store_inv_def by blast+

lemma store_invI:
  assumes "netCalls w = length (promises w)"
    and "policyRefreshPromise (cl w) = None \<Longrightarrow> tasks w = [] \<and> owners w = []"
    and "\<And>h. policyRefreshPromise (cl w) = Some h \<Longrightarrow>
          h < length (promises w) \<and> (\<exists>c. owners w = [(c, h)]) \<and>
          (tasks w = [] \<and> promises w ! h \<noteq> Pending
           \<or> (\<exists>s. tasks w = [(h, s, cachedPolicy (cl w))]) \<and> promises w ! h = Pending)"
    and "\<And>k. k < length (promises w) \<Longrightarrow> policyRefreshPromise (cl w) \<noteq> Some k \<Longrightarrow>
          promises w ! k \<noteq> Pending"
    and "\<And>x. x \<in> set (attached w) \<Longrightarrow> snd x < length (promises w)"
    and "\<And>y j. y \<in> set (delivered w) \<Longrightarrow> fst (snd y) = Some j \<Longrightarrow>
          j < length (promises w) \<and> promises w ! j = Fulfilled (snd (snd y))"
  shows "store_inv w"
  unfolding store_inv_def using assms by blast

lemma inv_boot: "store_inv (boot key a)"
  by (simp add: store_inv_def boot_def WatchtowerClient_def)

lemma refreshPolicy_attach:
  "policyRefreshPromise (cl w) = Some h \<Longrightarrow>
   refreshPolicy w c = w\<lparr>attached := attached w @ [(c, h)]\<rparr>"
  by (simp add: refreshPolicy_def)

lemma refreshPolicy_create:
  "policyRefreshPromise (cl w) = None \<Longrightarrow>
   refreshPolicy w c =
     w\<lparr>cl := (cl w)\<lparr>policyRefreshPromise := Some (length (promises w))\<rparr>,
       promises := promises w @ [Pending],
       tasks := tasks w @ [(length (promises w), AwaitFetch, cachedPolicy (cl w))],
       owners := owners w @ [(c, length (promises w))],
       netCalls := Suc (netCalls w)\<rparr>"
  by (simp add: refreshPolicy_def Let_def)

lemma inv_refreshPolicy:
  assumes "store_inv w"
  shows "store_inv (refreshPolicy w c)"
proof (cases "policyRefreshPromise (cl w)")
  case None
  note f = store_invD[OF assms]
  note eq = refreshPolicy_create[OF None]
  from f(2)[OF None] have e: "tasks w = []" "owners w = []" by simp_all
  show ?thesis
  proof (rule store_invI)
    show "netCalls (refreshPolicy w c) = length (promises (refreshPolicy w c))"
      using f(1) by (simp add: eq)
  next
    assume "policyRefreshPromise (cl (refreshPolicy w c)) = None"
    then show "tasks (refreshPolicy w c) = [] \<and> owners (refreshPolicy w c) = []"
      by (simp add: eq)
  next
    fix h assume "policyRefreshPromise (cl (refreshPolicy w c)) = Some h"
    then have "h = length (promises w)" by (simp add: eq)
    then show "h < length (promises (refreshPolicy w c)) \<and>
         (\<exists>ca. owners (refreshPolicy w c) = [(ca, h)]) \<and>
         (tasks (refreshPolicy w c) = [] \<and> promises (refreshPolicy w c) ! h \<noteq> Pending \<or>
          (\<exists>s. tasks (refreshPolicy w c) = [(h, s, cachedPolicy (cl (refreshPolicy w c)))]) \<and>
          promises (refreshPolicy w c) ! h = Pending)"
      using e by (simp add: eq)
  next
    fix k assume k: "k < length (promises (refreshPolicy w c))"
      and n: "policyRefreshPromise (cl (refreshPolicy w c)) \<noteq> Some k"
    from n have "k \<noteq> length (promises w)" by (simp add: eq)
    with k have k': "k < length (promises w)" by (simp add: eq)
    from f(4)[OF k'] None have "promises w ! k \<noteq> Pending" by simp
    with k' show "promises (refreshPolicy w c) ! k \<noteq> Pending" by (simp add: eq nth_append)
  next
    fix x assume "x \<in> set (attached (refreshPolicy w c))"
    then have "x \<in> set (attached w)" by (simp add: eq)
    from f(5)[OF this] show "snd x < length (promises (refreshPolicy w c))" by (simp add: eq)
  next
    fix y j assume "y \<in> set (delivered (refreshPolicy w c))" and j: "fst (snd y) = Some j"
    then have "y \<in> set (delivered w)" by (simp add: eq)
    from f(6)[OF this j]
    show "j < length (promises (refreshPolicy w c)) \<and>
          promises (refreshPolicy w c) ! j = Fulfilled (snd (snd y))"
      by (simp add: eq nth_append)
  qed
next
  case (Some h)
  note f = store_invD[OF assms]
  note eq = refreshPolicy_attach[OF Some]
  show ?thesis
  proof (rule store_invI)
    show "netCalls (refreshPolicy w c) = length (promises (refreshPolicy w c))"
      using f(1) by (simp add: eq)
  next
    assume "policyRefreshPromise (cl (refreshPolicy w c)) = None"
    with Some show "tasks (refreshPolicy w c) = [] \<and> owners (refreshPolicy w c) = []"
      by (simp add: eq)
  next
    fix h' assume "policyRefreshPromise (cl (refreshPolicy w c)) = Some h'"
    then have "policyRefreshPromise (cl w) = Some h'" by (simp add: eq)
    from f(3)[OF this]
    show "h' < length (promises (refreshPolicy w c)) \<and>
         (\<exists>ca. owners (refreshPolicy w c) = [(ca, h')]) \<and>
         (tasks (refreshPolicy w c) = [] \<and> promises (refreshPolicy w c) ! h' \<noteq> Pending \<or>
          (\<exists>s. tasks (refreshPolicy w c) = [(h', s, cachedPolicy (cl (refreshPolicy w c)))]) \<and>
          promises (refreshPolicy w c) ! h' = Pending)"
      by (simp add: eq)
  next
    fix k assume "k < length (promises (refreshPolicy w c))"
      and "policyRefreshPromise (cl (refreshPolicy w c)) \<noteq> Some k"
    then have "k < length (promises w)" "policyRefreshPromise (cl w) \<noteq> Some k"
      by (simp_all add: eq)
    from f(4)[OF this] show "promises (refreshPolicy w c) ! k \<noteq> Pending" by (simp add: eq)
  next
    fix x assume "x \<in> set (attached (refreshPolicy w c))"
    then have "x \<in> set (attached w) \<or> x = (c, h)" by (auto simp add: eq)
    then show "snd x < length (promises (refreshPolicy w c))"
    proof
      assume "x \<in> set (attached w)"
      from f(5)[OF this] show ?thesis by (simp add: eq)
    next
      assume "x = (c, h)"
      with f(3)[OF Some] show ?thesis by (simp add: eq)
    qed
  next
    fix y j assume "y \<in> set (delivered (refreshPolicy w c))" and j: "fst (snd y) = Some j"
    then have "y \<in> set (delivered w)" by (simp add: eq)
    from f(6)[OF this j]
    show "j < length (promises (refreshPolicy w c)) \<and>
          promises (refreshPolicy w c) ! j = Fulfilled (snd (snd y))"
      by (simp add: eq)
  qed
qed

lemma inv_deliver_cached:
  assumes "store_inv w"
  shows "store_inv (w\<lparr>delivered := delivered w @ [(c, None, p)]\<rparr>)"
proof (rule store_invI)
  note f = store_invD[OF assms]
  let ?w = "w\<lparr>delivered := delivered w @ [(c, None, p)]\<rparr>"
  show "netCalls ?w = length (promises ?w)" using f(1) by simp
  show "policyRefreshPromise (cl ?w) = None \<Longrightarrow> tasks ?w = [] \<and> owners ?w = []"
    using f(2) by simp
  show "\<And>h. policyRefreshPromise (cl ?w) = Some h \<Longrightarrow>
          h < length (promises ?w) \<and> (\<exists>c. owners ?w = [(c, h)]) \<and>
          (tasks ?w = [] \<and> promises ?w ! h \<noteq> Pending
           \<or> (\<exists>s. tasks ?w = [(h, s, cachedPolicy (cl ?w))]) \<and> promises ?w ! h = Pending)"
    using f(3) by simp
  show "\<And>k. k < length (promises ?w) \<Longrightarrow> policyRefreshPromise (cl ?w) \<noteq> Some k \<Longrightarrow>
          promises ?w ! k \<noteq> Pending"
    using f(4) by simp
  show "\<And>x. x \<in> set (attached ?w) \<Longrightarrow> snd x < length (promises ?w)"
    using f(5) by simp
  show "\<And>y j. y \<in> set (delivered ?w) \<Longrightarrow> fst (snd y) = Some j \<Longrightarrow>
          j < length (promises ?w) \<and> promises ?w ! j = Fulfilled (snd (snd y))"
  proof -
    fix y j assume "y \<in> set (delivered ?w)" and j: "fst (snd y) = Some j"
    then have "y \<in> set (delivered w)" by auto
    from f(6)[OF this j] show "j < length (promises ?w) \<and> promises ?w ! j = Fulfilled (snd (snd y))"
      by simp
  qed
qed

lemma inv_get: "store_inv w \<Longrightarrow> store_inv (getPolicyMaybeRefresh w c t)"
  unfolding getPolicyMaybeRefresh_def
  by (simp add: inv_refreshPolicy inv_deliver_cached)

lemma task_of_inv:
  assumes "store_inv w" "map_of (tasks w) h = Some (s, d)"
  shows "tasks w = [(h, s, d)]" and "d = cachedPolicy (cl w)"
    and "policyRefreshPromise (cl w) = Some h"
    and "h < length (promises w)" and "promises w ! h = Pending" and "\<exists>c. owners w = [(c, h)]"
proof -
  note f = store_invD[OF assms(1)]
  from assms(2) have ne: "tasks w \<noteq> []" by (cases "tasks w") simp_all
  with f(2) obtain h' where h': "policyRefreshPromise (cl w) = Some h'"
    by (cases "policyRefreshPromise (cl w)") simp_all
  from f(3)[OF h'] ne obtain s' where t: "tasks w = [(h', s', cachedPolicy (cl w))]"
    and p: "promises w ! h' = Pending" and l: "h' < length (promises w)"
    and o: "\<exists>c. owners w = [(c, h')]" by blast
  from assms(2) t have e: "h = h'" "s = s'" "d = cachedPolicy (cl w)"
    by (simp_all split: if_splits)
  from e t show "tasks w = [(h, s, d)]" by simp
  from e show "d = cachedPolicy (cl w)" by simp
  from e h' show "policyRefreshPromise (cl w) = Some h" by simp
  from e l show "h < length (promises w)" by simp
  from e p show "promises w ! h = Pending" by simp
  from e o show "\<exists>c. owners w = [(c, h)]" by simp
qed

lemma inv_settle:
  assumes "store_inv w" "map_of (tasks w) h = Some (s, d)"
    and c': "policyRefreshPromise c' = policyRefreshPromise (cl w)"
  shows "store_inv (settle (w\<lparr>cl := c'\<rparr>) h p)"
proof (rule store_invI)
  note f = store_invD[OF assms(1)]
  note g = task_of_inv[OF assms(1,2)]
  let ?w = "settle (w\<lparr>cl := c'\<rparr>) h p"
  have cl: "cl ?w = c'" and pr: "promises ?w = (promises w)[h := Fulfilled p]"
    and ta: "tasks ?w = []" and ow: "owners ?w = owners w" and at: "attached ?w = attached w"
    and de: "delivered ?w = delivered w" and ne: "netCalls ?w = netCalls w"
    using g(1) by (simp_all add: settle_def)
  show "netCalls ?w = length (promises ?w)" using f(1) by (simp add: ne pr)
  show "policyRefreshPromise (cl ?w) = None \<Longrightarrow> tasks ?w = [] \<and> owners ?w = []"
    using g(3) by (simp add: cl c')
  show "\<And>k. policyRefreshPromise (cl ?w) = Some k \<Longrightarrow>
          k < length (promises ?w) \<and> (\<exists>c. owners ?w = [(c, k)]) \<and>
          (tasks ?w = [] \<and> promises ?w ! k \<noteq> Pending
           \<or> (\<exists>s. tasks ?w = [(k, s, cachedPolicy (cl ?w))]) \<and> promises ?w ! k = Pending)"
  proof -
    fix k assume "policyRefreshPromise (cl ?w) = Some k"
    with g(3) have "k = h" by (simp add: cl c')
    with g(4) g(6) show "k < length (promises ?w) \<and> (\<exists>c. owners ?w = [(c, k)]) \<and>
          (tasks ?w = [] \<and> promises ?w ! k \<noteq> Pending
           \<or> (\<exists>s. tasks ?w = [(k, s, cachedPolicy (cl ?w))]) \<and> promises ?w ! k = Pending)"
      by (simp add: pr ta ow)
  qed
  show "\<And>k. k < length (promises ?w) \<Longrightarrow> policyRefreshPromise (cl ?w) \<noteq> Some k \<Longrightarrow>
          promises ?w ! k \<noteq> Pending"
  proof -
    fix k assume k: "k < length (promises ?w)" and n: "policyRefreshPromise (cl ?w) \<noteq> Some k"
    from n g(3) have kh: "k \<noteq> h" and n': "policyRefreshPromise (cl w) \<noteq> Some k"
      by (auto simp add: cl c')
    from k have k': "k < length (promises w)" by (simp add: pr)
    from f(4)[OF k' n'] kh show "promises ?w ! k \<noteq> Pending" by (simp add: pr)
  qed
  show "\<And>x. x \<in> set (attached ?w) \<Longrightarrow> snd x < length (promises ?w)"
    using f(5) by (simp add: at pr)
  show "\<And>y j. y \<in> set (delivered ?w) \<Longrightarrow> fst (snd y) = Some j \<Longrightarrow>
          j < length (promises ?w) \<and> promises ?w ! j = Fulfilled (snd (snd y))"
  proof -
    fix y j assume "y \<in> set (delivered ?w)" and j: "fst (snd y) = Some j"
    then have "y \<in> set (delivered w)" by (simp add: de)
    from f(6)[OF this j] have a: "j < length (promises w)"
      and b: "promises w ! j = Fulfilled (snd (snd y))" by simp_all
    from b g(5) have "j \<noteq> h" by auto
    with a b show "j < length (promises ?w) \<and> promises ?w ! j = Fulfilled (snd (snd y))"
      by (simp add: pr)
  qed
qed

lemma inv_settle_same:
  assumes "store_inv w" "map_of (tasks w) h = Some (s, d)"
  shows "store_inv (settle w h p)"
  using inv_settle[OF assms, of "cl w" p] by simp

lemma inv_rephase:
  assumes "store_inv w" "map_of (tasks w) h = Some (s, d)"
  shows "store_inv (w\<lparr>tasks := map (\<lambda>t. if fst t = h then (h, s', d) else t) (tasks w)\<rparr>)"
proof (rule store_invI)
  note f = store_invD[OF assms(1)]
  note g = task_of_inv[OF assms]
  let ?w = "w\<lparr>tasks := map (\<lambda>t. if fst t = h then (h, s', d) else t) (tasks w)\<rparr>"
  have ta: "tasks ?w = [(h, s', cachedPolicy (cl w))]" using g(1) g(2) by simp
  show "netCalls ?w = length (promises ?w)" using f(1) by simp
  show "policyRefreshPromise (cl ?w) = None \<Longrightarrow> tasks ?w = [] \<and> owners ?w = []"
    using g(3) by simp
  show "\<And>k. policyRefreshPromise (cl ?w) = Some k \<Longrightarrow>
          k < length (promises ?w) \<and> (\<exists>c. owners ?w = [(c, k)]) \<and>
          (tasks ?w = [] \<and> promises ?w ! k \<noteq> Pending
           \<or> (\<exists>s. tasks ?w = [(k, s, cachedPolicy (cl ?w))]) \<and> promises ?w ! k = Pending)"
  proof -
    fix k assume "policyRefreshPromise (cl ?w) = Some k"
    with g(3) have "k = h" by simp
    with g(4) g(5) g(6) show "k < length (promises ?w) \<and> (\<exists>c. owners ?w = [(c, k)]) \<and>
          (tasks ?w = [] \<and> promises ?w ! k \<noteq> Pending
           \<or> (\<exists>s. tasks ?w = [(k, s, cachedPolicy (cl ?w))]) \<and> promises ?w ! k = Pending)"
      by (simp add: ta)
  qed
  show "\<And>k. k < length (promises ?w) \<Longrightarrow> policyRefreshPromise (cl ?w) \<noteq> Some k \<Longrightarrow>
          promises ?w ! k \<noteq> Pending"
    using f(4) by simp
  show "\<And>x. x \<in> set (attached ?w) \<Longrightarrow> snd x < length (promises ?w)"
    using f(5) by simp
  show "\<And>y j. y \<in> set (delivered ?w) \<Longrightarrow> fst (snd y) = Some j \<Longrightarrow>
          j < length (promises ?w) \<and> promises ?w ! j = Fulfilled (snd (snd y))"
    using f(6) by simp
qed

lemma fetchDone_SomeD:
  assumes "fetchDone w h fr = Some w'"
  obtains d where "map_of (tasks w) h = Some (AwaitFetch, d)"
  using assms by (auto simp: fetchDone_def split: option.splits suspension.splits)

lemma jsonDone_SomeD:
  assumes "jsonDone conv w h br now = Some w'"
  obtains d where "map_of (tasks w) h = Some (AwaitJson, d)"
  using assms by (auto simp: jsonDone_def split: option.splits suspension.splits)

lemma inv_fetchDone:
  assumes "store_inv w" "fetchDone w h fr = Some w'"
  shows "store_inv w'"
proof -
  from assms(2) obtain d where m: "map_of (tasks w) h = Some (AwaitFetch, d)"
    by (rule fetchDone_SomeD)
  show ?thesis
  proof (cases fr)
    case (Rejected e)
    with assms(2) m have "w' = settle w h d" by (simp add: fetchDone_def)
    with inv_settle_same[OF assms(1) m] show ?thesis by simp
  next
    case (Resolved ok)
    show ?thesis
    proof (cases ok)
      case False
      with Resolved assms(2) m have "w' = settle w h (cachedPolicy (cl w))"
        by (simp add: fetchDone_def)
      with inv_settle_same[OF assms(1) m] show ?thesis by simp
    next
      case True
      with Resolved assms(2) m
      have "w' = w\<lparr>tasks := map (\<lambda>t. if fst t = h then (h, AwaitJson, d) else t) (tasks w)\<rparr>"
        by (simp add: fetchDone_def)
      with inv_rephase[OF assms(1) m] show ?thesis by simp
    qed
  qed
qed

lemma inv_jsonDone:
  assumes "store_inv w" "jsonDone conv w h br now = Some w'"
  shows "store_inv w'"
proof -
  from assms(2) obtain d where m: "map_of (tasks w) h = Some (AwaitJson, d)"
    by (rule jsonDone_SomeD)
  show ?thesis
  proof (cases br)
    case BodyRejected
    with assms(2) m have "w' = settle w h d" by (simp add: jsonDone_def)
    with inv_settle_same[OF assms(1) m] show ?thesis by simp
  next
    case (BodyJson j)
    show ?thesis
    proof (cases "refreshPolicy_policy conv j")
      case (Inl e)
      with BodyJson assms(2) m have "w' = settle w h d" by (simp add: jsonDone_def)
      with inv_settle_same[OF assms(1) m] show ?thesis by simp
    next
      case (Inr p)
      with BodyJson assms(2) m
      have "w' = settle (w\<lparr>cl := (cl w)\<lparr>cachedPolicy := p, policyLastFetchMs := now\<rparr>\<rparr>) h p"
        by (simp add: jsonDone_def)
      moreover have "store_inv (settle (w\<lparr>cl := (cl w)\<lparr>cachedPolicy := p, policyLastFetchMs := now\<rparr>\<rparr>) h p)"
        by (rule inv_settle[OF assms(1) m]) simp
      ultimately show ?thesis by simp
    qed
  qed
qed

lemma resumeOwner_SomeD:
  assumes "resumeOwner w c h = Some w'"
  obtains p where "(c, h) \<in> set (owners w)" "h < length (promises w)"
    "promises w ! h = Fulfilled p"
    "w' = w\<lparr>cl := (cl w)\<lparr>policyRefreshPromise := None\<rparr>,
            owners := remove1 (c, h) (owners w),
            delivered := delivered w @ [(c, Some h, p)]\<rparr>"
  using assms by (auto simp: resumeOwner_def split: if_splits promise.splits)

lemma resumeAttached_SomeD:
  assumes "resumeAttached w c h = Some w'"
  obtains p where "(c, h) \<in> set (attached w)" "h < length (promises w)"
    "promises w ! h = Fulfilled p"
    "w' = w\<lparr>attached := remove1 (c, h) (attached w),
            delivered := delivered w @ [(c, Some h, p)]\<rparr>"
  using assms by (auto simp: resumeAttached_def split: if_splits promise.splits)

lemma inv_resumeOwner:
  assumes "store_inv w" "resumeOwner w c h = Some w'"
  shows "store_inv w'"
proof -
  note f = store_invD[OF assms(1)]
  from assms(2) obtain p where o: "(c, h) \<in> set (owners w)" and l: "h < length (promises w)"
    and p: "promises w ! h = Fulfilled p"
    and w': "w' = w\<lparr>cl := (cl w)\<lparr>policyRefreshPromise := None\<rparr>,
            owners := remove1 (c, h) (owners w),
            delivered := delivered w @ [(c, Some h, p)]\<rparr>"
    by (rule resumeOwner_SomeD)
  from o f(2) obtain h' where h': "policyRefreshPromise (cl w) = Some h'"
    by (cases "policyRefreshPromise (cl w)") auto
  from f(3)[OF h'] o have hh: "h' = h" and ow: "owners w = [(c, h)]" by auto
  from f(3)[OF h'] hh p have ta: "tasks w = []" by auto
  show ?thesis
  proof (rule store_invI)
    show "netCalls w' = length (promises w')" using f(1) by (simp add: w')
    show "policyRefreshPromise (cl w') = None \<Longrightarrow> tasks w' = [] \<and> owners w' = []"
      using ta ow by (simp add: w')
    show "\<And>k. policyRefreshPromise (cl w') = Some k \<Longrightarrow>
          k < length (promises w') \<and> (\<exists>c. owners w' = [(c, k)]) \<and>
          (tasks w' = [] \<and> promises w' ! k \<noteq> Pending
           \<or> (\<exists>s. tasks w' = [(k, s, cachedPolicy (cl w'))]) \<and> promises w' ! k = Pending)"
      by (simp add: w')
    show "\<And>k. k < length (promises w') \<Longrightarrow> policyRefreshPromise (cl w') \<noteq> Some k \<Longrightarrow>
          promises w' ! k \<noteq> Pending"
    proof -
      fix k assume "k < length (promises w')"
      then have k: "k < length (promises w)" by (simp add: w')
      show "promises w' ! k \<noteq> Pending"
      proof (cases "k = h")
        case True
        with p show ?thesis by (simp add: w')
      next
        case False
        with h' hh have "policyRefreshPromise (cl w) \<noteq> Some k" by simp
        from f(4)[OF k this] show ?thesis by (simp add: w')
      qed
    qed
    show "\<And>x. x \<in> set (attached w') \<Longrightarrow> snd x < length (promises w')"
      using f(5) by (simp add: w')
    show "\<And>y j. y \<in> set (delivered w') \<Longrightarrow> fst (snd y) = Some j \<Longrightarrow>
          j < length (promises w') \<and> promises w' ! j = Fulfilled (snd (snd y))"
    proof -
      fix y j assume "y \<in> set (delivered w')" and j: "fst (snd y) = Some j"
      then have "y \<in> set (delivered w) \<or> y = (c, Some h, p)" by (auto simp add: w')
      then show "j < length (promises w') \<and> promises w' ! j = Fulfilled (snd (snd y))"
      proof
        assume "y \<in> set (delivered w)"
        from f(6)[OF this j] show ?thesis by (simp add: w')
      next
        assume "y = (c, Some h, p)"
        with j l p show ?thesis by (simp add: w')
      qed
    qed
  qed
qed

lemma inv_resumeAttached:
  assumes "store_inv w" "resumeAttached w c h = Some w'"
  shows "store_inv w'"
proof -
  note f = store_invD[OF assms(1)]
  from assms(2) obtain p where l: "h < length (promises w)"
    and p: "promises w ! h = Fulfilled p"
    and w': "w' = w\<lparr>attached := remove1 (c, h) (attached w),
            delivered := delivered w @ [(c, Some h, p)]\<rparr>"
    by (rule resumeAttached_SomeD)
  show ?thesis
  proof (rule store_invI)
    show "netCalls w' = length (promises w')" using f(1) by (simp add: w')
    show "policyRefreshPromise (cl w') = None \<Longrightarrow> tasks w' = [] \<and> owners w' = []"
      using f(2) by (simp add: w')
    show "\<And>k. policyRefreshPromise (cl w') = Some k \<Longrightarrow>
          k < length (promises w') \<and> (\<exists>c. owners w' = [(c, k)]) \<and>
          (tasks w' = [] \<and> promises w' ! k \<noteq> Pending
           \<or> (\<exists>s. tasks w' = [(k, s, cachedPolicy (cl w'))]) \<and> promises w' ! k = Pending)"
      using f(3) by (simp add: w')
    show "\<And>k. k < length (promises w') \<Longrightarrow> policyRefreshPromise (cl w') \<noteq> Some k \<Longrightarrow>
          promises w' ! k \<noteq> Pending"
      using f(4) by (simp add: w')
    show "\<And>x. x \<in> set (attached w') \<Longrightarrow> snd x < length (promises w')"
    proof -
      fix x assume "x \<in> set (attached w')"
      then have "x \<in> set (remove1 (c, h) (attached w))" by (simp add: w')
      then have "x \<in> set (attached w)" using set_remove1_subset by fastforce
      from f(5)[OF this] show "snd x < length (promises w')" by (simp add: w')
    qed
    show "\<And>y j. y \<in> set (delivered w') \<Longrightarrow> fst (snd y) = Some j \<Longrightarrow>
          j < length (promises w') \<and> promises w' ! j = Fulfilled (snd (snd y))"
    proof -
      fix y j assume "y \<in> set (delivered w')" and j: "fst (snd y) = Some j"
      then have "y \<in> set (delivered w) \<or> y = (c, Some h, p)" by (auto simp add: w')
      then show "j < length (promises w') \<and> promises w' ! j = Fulfilled (snd (snd y))"
      proof
        assume "y \<in> set (delivered w)"
        from f(6)[OF this j] show ?thesis by (simp add: w')
      next
        assume "y = (c, Some h, p)"
        with j l p show ?thesis by (simp add: w')
      qed
    qed
  qed
qed

lemma inv_step:
  assumes "store_inv w" "step conv w ev = Some w'"
  shows "store_inv w'"
proof (cases ev)
  case (CallRefresh c)
  with assms(2) have "w' = refreshPolicy w c" by simp
  with inv_refreshPolicy[OF assms(1)] show ?thesis by simp
next
  case (CallGet c t)
  with assms(2) have "w' = getPolicyMaybeRefresh w c t" by simp
  with inv_get[OF assms(1)] show ?thesis by simp
next
  case (FetchDone h fr)
  with assms(2) have "fetchDone w h fr = Some w'" by simp
  with assms(1) show ?thesis by (rule inv_fetchDone)
next
  case (JsonDone h br t)
  with assms(2) have "jsonDone conv w h br t = Some w'" by simp
  with assms(1) show ?thesis by (rule inv_jsonDone)
next
  case (ResumeOwner c h)
  with assms(2) have "resumeOwner w c h = Some w'" by simp
  with assms(1) show ?thesis by (rule inv_resumeOwner)
next
  case (ResumeAttached c h)
  with assms(2) have "resumeAttached w c h = Some w'" by simp
  with assms(1) show ?thesis by (rule inv_resumeAttached)
qed

lemma exec_Cons_SomeD:
  assumes "exec conv w (e # es) = Some w'"
  obtains w1 where "step conv w e = Some w1" "exec conv w1 es = Some w'"
  using assms by (cases "step conv w e") simp_all

lemma inv_exec: "store_inv w \<Longrightarrow> exec conv w evs = Some w' \<Longrightarrow> store_inv w'"
proof (induction evs arbitrary: w)
  case Nil
  then show ?case by simp
next
  case (Cons e es)
  from Cons.prems(2) obtain w1 where s: "step conv w e = Some w1"
    and r: "exec conv w1 es = Some w'" by (rule exec_Cons_SomeD)
  from inv_step[OF Cons.prems(1) s] have "store_inv w1" .
  from Cons.IH[OF this r] show ?case .
qed

lemma inv_reachable: "exec conv (boot key a) evs = Some w \<Longrightarrow> store_inv w"
  using inv_exec[OF inv_boot] .


section \<open>Freshness\<close>

lemma exec_append:
  "exec conv w (xs @ ys) = (case exec conv w xs of None \<Rightarrow> None | Some w' \<Rightarrow> exec conv w' ys)"
  by (induction xs arbitrary: w) (simp_all split: option.splits)

lemma js_le_not_gt: "js_le a b \<Longrightarrow> \<not> js_gt a b"
  by (cases a; cases b) (simp_all add: js_le_def)

lemma isStale_mono:
  assumes "isStale c t" "t \<le> t'"
  shows "isStale c t'"
proof (cases "refreshWindowMs c")
  case (Fin x)
  with assms show ?thesis by (simp add: isStale_def ageMs_def)
qed (use assms in \<open>simp_all add: isStale_def ageMs_def\<close>)

lemma get_fresh:
  assumes "\<not> isStale (cl w) now"
  shows "getPolicyMaybeRefresh w c now = w\<lparr>delivered := delivered w @ [(c, None, cachedPolicy (cl w))]\<rparr>"
  using assms by (simp add: getPolicyMaybeRefresh_def isStale_def)

lemma get_stale:
  assumes "isStale (cl w) now"
  shows "getPolicyMaybeRefresh w c now = refreshPolicy w c"
  using assms by (simp add: getPolicyMaybeRefresh_def isStale_def)


section \<open>Runs of one refresh\<close>

lemma isStale_handle [simp]:
  "isStale (c\<lparr>policyRefreshPromise := x\<rparr>) t = isStale c t"
  by (simp add: isStale_def ageMs_def refreshWindowMs_def)

lemma exec_settleEvents:
  assumes "tasks W = [(h, AwaitFetch, cachedPolicy (cl W))]"
  shows "exec conv W (settleEvents h fr br t) =
         Some (case refreshResult conv fr br of
                 None \<Rightarrow> settle W h (cachedPolicy (cl W))
               | Some p \<Rightarrow>
                   settle (W\<lparr>cl := (cl W)\<lparr>cachedPolicy := p, policyLastFetchMs := t\<rparr>\<rparr>) h p)"
proof (cases fr)
  case (Rejected e)
  then show ?thesis
    by (simp add: settleEvents_def refreshResult_def fetchDone_def assms)
next
  case (Resolved ok)
  show ?thesis
  proof (cases ok)
    case False
    with Resolved show ?thesis
      by (simp add: settleEvents_def refreshResult_def fetchDone_def assms)
  next
    case True
    define W1 where "W1 = W\<lparr>tasks := [(h, AwaitJson, cachedPolicy (cl W))]\<rparr>"
    have f: "fetchDone W h (Resolved True) = Some W1"
      by (simp add: fetchDone_def assms W1_def)
    have t1: "map_of (tasks W1) h = Some (AwaitJson, cachedPolicy (cl W))"
      by (simp add: W1_def)
    have s1: "settle W1 h q = settle W h q" for q
      by (simp add: settle_def W1_def assms)
    have s2: "settle (W1\<lparr>cl := c'\<rparr>) h q = settle (W\<lparr>cl := c'\<rparr>) h q" for q c'
      by (simp add: settle_def W1_def assms)
    have c1: "cl W1 = cl W" by (simp add: W1_def)
    show ?thesis
    proof (cases br)
      case BodyRejected
      with Resolved True f t1 show ?thesis
        by (simp add: settleEvents_def refreshResult_def jsonDone_def s1)
    next
      case (BodyJson j)
      show ?thesis
      proof (cases "refreshPolicy_policy conv j")
        case (Inl e)
        with BodyJson Resolved True f t1 show ?thesis
          by (simp add: settleEvents_def refreshResult_def jsonDone_def s1)
      next
        case (Inr p)
        with BodyJson Resolved True f t1 show ?thesis
          by (simp add: settleEvents_def refreshResult_def jsonDone_def s2 c1)
      qed
    qed
  qed
qed

lemma exec_attach_all:
  assumes "policyRefreshPromise (cl W) = Some h" "\<forall>x \<in> set others. isStale (cl W) (snd x)"
  shows "exec conv W (map (\<lambda>x. CallGet (fst x) (snd x)) others) =
         Some (W\<lparr>attached := attached W @ map (\<lambda>x. (fst x, h)) others\<rparr>)"
  using assms
proof (induction others arbitrary: W)
  case Nil
  then show ?case by simp
next
  case (Cons x xs)
  define W1 where "W1 = W\<lparr>attached := attached W @ [(fst x, h)]\<rparr>"
  from Cons.prems have st: "isStale (cl W) (snd x)" by simp
  have g: "getPolicyMaybeRefresh W (fst x) (snd x) = W1"
    by (simp add: get_stale[OF st] refreshPolicy_attach[OF Cons.prems(1)] W1_def)
  have h1: "policyRefreshPromise (cl W1) = Some h" using Cons.prems(1) by (simp add: W1_def)
  have s1: "\<forall>y \<in> set xs. isStale (cl W1) (snd y)" using Cons.prems(2) by (simp add: W1_def)
  from Cons.IH[OF h1 s1] g show ?case by (simp add: W1_def)
qed

lemma exec_resume_all:
  assumes "h < length (promises W)" "promises W ! h = Fulfilled p"
    and "attached W = A @ map (\<lambda>x. (fst x, h)) others" and "h \<notin> snd ` set A"
  shows "exec conv W (map (\<lambda>x. ResumeAttached (fst x) h) others) =
         Some (W\<lparr>attached := A,
                 delivered := delivered W @ map (\<lambda>x. (fst x, Some h, p)) others\<rparr>)"
  using assms
proof (induction others arbitrary: W)
  case Nil
  then show ?case by simp
next
  case (Cons x xs)
  define W1 where "W1 = W\<lparr>attached := A @ map (\<lambda>x. (fst x, h)) xs,
                           delivered := delivered W @ [(fst x, Some h, p)]\<rparr>"
  from Cons.prems(4) have nA: "(fst x, h) \<notin> set A" by force
  have r: "remove1 (fst x, h) (A @ (fst x, h) # map (\<lambda>x. (fst x, h)) xs)
             = A @ map (\<lambda>x. (fst x, h)) xs"
    using nA by (simp add: remove1_append)
  have g: "resumeAttached W (fst x) h = Some W1"
    using Cons.prems(1,2) by (simp add: resumeAttached_def r W1_def Cons.prems(3))
  have a: "h < length (promises W1)" "promises W1 ! h = Fulfilled p"
    "attached W1 = A @ map (\<lambda>x. (fst x, h)) xs"
    using Cons.prems(1,2) by (simp_all add: W1_def)
  from Cons.IH[OF a Cons.prems(4)] g show ?case by (simp add: W1_def)
qed

lemma burst_run:
  assumes inv: "store_inv w" and idle: "policyRefreshPromise (cl w) = None"
    and st0: "isStale (cl w) t0" and st: "\<forall>x \<in> set others. isStale (cl w) (snd x)"
  shows "\<exists>w'. exec conv w (burst (length (promises w)) c0 t0 others fr br t) = Some w'
      \<and> netCalls w' = Suc (netCalls w)
      \<and> policyRefreshPromise (cl w') = None \<and> tasks w' = [] \<and> owners w' = []
      \<and> attached w' = attached w
      \<and> delivered w' = delivered w
            @ map (\<lambda>c. (c, Some (length (promises w)), (case refreshResult conv fr br of None \<Rightarrow> cachedPolicy (cl w) | Some q \<Rightarrow> q)))
                (c0 # map fst others)
      \<and> promises w' = promises w @ [Fulfilled (case refreshResult conv fr br of None \<Rightarrow> cachedPolicy (cl w) | Some q \<Rightarrow> q)]
      \<and> cachedPolicy (cl w') = (case refreshResult conv fr br of None \<Rightarrow> cachedPolicy (cl w) | Some q \<Rightarrow> q)
      \<and> policyLastFetchMs (cl w') = (case refreshResult conv fr br of None \<Rightarrow> policyLastFetchMs (cl w) | Some q \<Rightarrow> t)
      \<and> config (cl w') = config (cl w) \<and> apiKey (cl w') = apiKey (cl w)"
proof -
  note f = store_invD[OF inv]
  define P where "P = (case refreshResult conv fr br of None \<Rightarrow> cachedPolicy (cl w) | Some q \<Rightarrow> q)"
  define T where "T = (case refreshResult conv fr br of None \<Rightarrow> policyLastFetchMs (cl w) | Some q \<Rightarrow> t)"
  note P = P_def and T = T_def
  define h where "h = length (promises w)"
  from f(2)[OF idle] have e: "tasks w = []" "owners w = []" by simp_all
  have nA: "h \<notin> snd ` set (attached w)"
  proof
    assume "h \<in> snd ` set (attached w)"
    then obtain x where "x \<in> set (attached w)" "snd x = h" by auto
    with f(5)[of x] show False by (simp add: h_def)
  qed
  \<comment> \<open>the first access creates the promise\<close>
  define w1 where "w1 = w\<lparr>cl := (cl w)\<lparr>policyRefreshPromise := Some h\<rparr>,
       promises := promises w @ [Pending],
       tasks := [(h, AwaitFetch, cachedPolicy (cl w))],
       owners := [(c0, h)],
       netCalls := Suc (netCalls w)\<rparr>"
  have s1: "step conv w (CallGet c0 t0) = Some w1"
    using e by (simp add: get_stale[OF st0] refreshPolicy_create[OF idle] w1_def h_def)
  \<comment> \<open>the others attach\<close>
  define w2 where "w2 = w1\<lparr>attached := attached w @ map (\<lambda>x. (fst x, h)) others\<rparr>"
  have h1: "policyRefreshPromise (cl w1) = Some h" by (simp add: w1_def)
  have st1: "\<forall>x \<in> set others. isStale (cl w1) (snd x)" using st by (simp add: w1_def)
  have s2: "exec conv w1 (map (\<lambda>x. CallGet (fst x) (snd x)) others) = Some w2"
    using exec_attach_all[OF h1 st1, of conv] by (simp add: w2_def w1_def)
  \<comment> \<open>the fetch runs to its end\<close>
  have t2: "tasks w2 = [(h, AwaitFetch, cachedPolicy (cl w2))]"
    by (simp add: w2_def w1_def)
  define w3 where "w3 = (case refreshResult conv fr br of
                 None \<Rightarrow> settle w2 h (cachedPolicy (cl w2))
               | Some p \<Rightarrow>
                   settle (w2\<lparr>cl := (cl w2)\<lparr>cachedPolicy := p, policyLastFetchMs := t\<rparr>\<rparr>) h p)"
  have s3: "exec conv w2 (settleEvents h fr br t) = Some w3"
    using exec_settleEvents[OF t2, of conv fr br t] by (simp add: w3_def)
  have w3: "promises w3 = promises w @ [Fulfilled P]" "tasks w3 = []" "owners w3 = [(c0, h)]"
    "attached w3 = attached w @ map (\<lambda>x. (fst x, h)) others" "delivered w3 = delivered w"
    "netCalls w3 = Suc (netCalls w)" "policyRefreshPromise (cl w3) = Some h"
    "cachedPolicy (cl w3) = P" "policyLastFetchMs (cl w3) = T"
    "config (cl w3) = config (cl w)" "apiKey (cl w3) = apiKey (cl w)"
    by (cases "refreshResult conv fr br";
        simp add: w3_def settle_def w2_def w1_def P T h_def)+
  \<comment> \<open>the first caller resumes and resets the field\<close>
  define w4 where "w4 = w3\<lparr>cl := (cl w3)\<lparr>policyRefreshPromise := None\<rparr>,
                        owners := [],
                        delivered := delivered w @ [(c0, Some h, P)]\<rparr>"
  have p3: "h < length (promises w3)" "promises w3 ! h = Fulfilled P"
    by (simp_all add: w3(1) h_def)
  have s4: "step conv w3 (ResumeOwner c0 h) = Some w4"
    using p3 by (simp add: resumeOwner_def w3 w4_def)
  \<comment> \<open>the others resume\<close>
  define w5 where "w5 = w4\<lparr>attached := attached w,
                 delivered := delivered w4 @ map (\<lambda>x. (fst x, Some h, P)) others\<rparr>"
  have p4: "h < length (promises w4)" "promises w4 ! h = Fulfilled P"
    "attached w4 = attached w @ map (\<lambda>x. (fst x, h)) others"
    using p3 by (simp_all add: w4_def w3)
  have s5: "exec conv w4 (map (\<lambda>x. ResumeAttached (fst x) h) others) = Some w5"
    using exec_resume_all[OF p4 nA, of conv] by (simp add: w5_def)
  have run: "exec conv w (burst h c0 t0 others fr br t) = Some w5"
    using s1 s2 s3 s4 s5 by (simp add: burst_def exec_append)
  have "netCalls w5 = Suc (netCalls w)" "policyRefreshPromise (cl w5) = None"
    "tasks w5 = []" "owners w5 = []" "attached w5 = attached w"
    "delivered w5 = delivered w @ map (\<lambda>c. (c, Some h, P)) (c0 # map fst others)"
    "promises w5 = promises w @ [Fulfilled P]"
    "cachedPolicy (cl w5) = P" "policyLastFetchMs (cl w5) = T"
    "config (cl w5) = config (cl w)" "apiKey (cl w5) = apiKey (cl w)"
    by (simp_all add: w5_def w4_def w3 comp_def)
  with run show ?thesis unfolding h_def P_def T_def by blast
qed

lemma failed_step_settles:
  assumes inv: "store_inv w" and f: "refreshFails conv ev" and s: "step conv w ev = Some w'"
  shows "\<exists>h. policyRefreshPromise (cl w) = Some h \<and> h < length (promises w)
           \<and> w' = settle w h (cachedPolicy (cl w))"
proof (cases ev)
  case (FetchDone h fr)
  with s have fd: "fetchDone w h fr = Some w'" by simp
  then obtain d where m: "map_of (tasks w) h = Some (AwaitFetch, d)" by (rule fetchDone_SomeD)
  note g = task_of_inv[OF inv m]
  from f FetchDone have "(\<exists>e. fr = Rejected e) \<or> fr = Resolved False"
    by (cases fr) simp_all
  with fd m g(2) have "w' = settle w h (cachedPolicy (cl w))"
    by (auto simp add: fetchDone_def)
  with g(3) g(4) show ?thesis by blast
next
  case (JsonDone h br t)
  with s have jd: "jsonDone conv w h br t = Some w'" by simp
  then obtain d where m: "map_of (tasks w) h = Some (AwaitJson, d)" by (rule jsonDone_SomeD)
  note g = task_of_inv[OF inv m]
  have "w' = settle w h (cachedPolicy (cl w))"
  proof (cases br)
    case BodyRejected
    with jd m g(2) show ?thesis by (simp add: jsonDone_def)
  next
    case (BodyJson j)
    with f JsonDone obtain e where "refreshPolicy_policy conv j = Inl e"
      by (cases "refreshPolicy_policy conv j") simp_all
    with BodyJson jd m g(2) show ?thesis by (simp add: jsonDone_def)
  qed
  with g(3) g(4) show ?thesis by blast
qed (use f in simp_all)

lemma settle_fields:
  "cl (settle w h p) = cl w" "netCalls (settle w h p) = netCalls w"
  "delivered (settle w h p) = delivered w" "owners (settle w h p) = owners w"
  "attached (settle w h p) = attached w"
  "promises (settle w h p) = (promises w)[h := Fulfilled p]"
  by (simp_all add: settle_def)

lemma refresh_run_failed:
  assumes inv: "store_inv w" and idle: "policyRefreshPromise (cl w) = None"
    and fail: "refreshResult conv fr br = None"
  shows "\<exists>w'. exec conv w (CallRefresh c # settleEvents (length (promises w)) fr br t
                              @ [ResumeOwner c (length (promises w))]) = Some w'
      \<and> delivered w' = delivered w @ [(c, Some (length (promises w)), cachedPolicy (cl w))]
      \<and> cl w' = cl w \<and> netCalls w' = Suc (netCalls w) \<and> tasks w' = [] \<and> owners w' = []
      \<and> promises w' = promises w @ [Fulfilled (cachedPolicy (cl w))]
      \<and> attached w' = attached w"
proof -
  note f = store_invD[OF inv]
  define h where "h = length (promises w)"
  from f(2)[OF idle] have e: "tasks w = []" "owners w = []" by simp_all
  define w1 where "w1 = w\<lparr>cl := (cl w)\<lparr>policyRefreshPromise := Some h\<rparr>,
       promises := promises w @ [Pending],
       tasks := [(h, AwaitFetch, cachedPolicy (cl w))],
       owners := [(c, h)],
       netCalls := Suc (netCalls w)\<rparr>"
  have s1: "step conv w (CallRefresh c) = Some w1"
    using e by (simp add: refreshPolicy_create[OF idle] w1_def h_def)
  have t1: "tasks w1 = [(h, AwaitFetch, cachedPolicy (cl w1))]" by (simp add: w1_def)
  define w3 where "w3 = settle w1 h (cachedPolicy (cl w1))"
  have s3: "exec conv w1 (settleEvents h fr br t) = Some w3"
    using exec_settleEvents[OF t1, of conv fr br t] fail by (simp add: w3_def)
  have w3: "promises w3 = promises w @ [Fulfilled (cachedPolicy (cl w))]" "tasks w3 = []"
    "owners w3 = [(c, h)]" "attached w3 = attached w" "delivered w3 = delivered w"
    "netCalls w3 = Suc (netCalls w)" "cl w3 = (cl w)\<lparr>policyRefreshPromise := Some h\<rparr>"
    by (simp_all add: w3_def settle_def w1_def h_def)
  define w4 where "w4 = w3\<lparr>cl := (cl w3)\<lparr>policyRefreshPromise := None\<rparr>,
                        owners := [],
                        delivered := delivered w @ [(c, Some h, cachedPolicy (cl w))]\<rparr>"
  have s4: "step conv w3 (ResumeOwner c h) = Some w4"
    by (simp add: resumeOwner_def w3 w4_def h_def)
  have run: "exec conv w (CallRefresh c # settleEvents h fr br t @ [ResumeOwner c h]) = Some w4"
    using s1 s3 s4 by (simp add: exec_append)
  have "cl w4 = cl w" using idle by (simp add: w4_def w3)
  moreover have "delivered w4 = delivered w @ [(c, Some h, cachedPolicy (cl w))]"
    "netCalls w4 = Suc (netCalls w)" "tasks w4 = []" "owners w4 = []"
    "promises w4 = promises w @ [Fulfilled (cachedPolicy (cl w))]" "attached w4 = attached w"
    by (simp_all add: w4_def w3)
  ultimately show ?thesis using run unfolding h_def by blast
qed

lemma stale_access_fetches:
  assumes "policyRefreshPromise (cl w) = None" "isStale (cl w) now"
  shows "netCalls (getPolicyMaybeRefresh w c now) = Suc (netCalls w)"
  using assms by (simp add: get_stale refreshPolicy_create)


section \<open>Consequences of the shape of reachable worlds\<close>

lemma pending_at_most_one:
  assumes "store_inv w"
  shows "length (pendingPromises w) \<le> 1"
    and "\<forall>h \<in> set (pendingPromises w). policyRefreshPromise (cl w) = Some h"
proof -
  note f = store_invD[OF assms]
  show all: "\<forall>h \<in> set (pendingPromises w). policyRefreshPromise (cl w) = Some h"
  proof
    fix h assume "h \<in> set (pendingPromises w)"
    then have "h < length (promises w)" "promises w ! h = Pending"
      by (simp_all add: pendingPromises_def)
    with f(4)[of h] show "policyRefreshPromise (cl w) = Some h" by blast
  qed
  have d: "distinct (pendingPromises w)" by (simp add: pendingPromises_def)
  show "length (pendingPromises w) \<le> 1"
  proof (cases "policyRefreshPromise (cl w)")
    case None
    with all have "set (pendingPromises w) = {}" by auto
    then show ?thesis by simp
  next
    case (Some h)
    with all have "set (pendingPromises w) \<subseteq> {h}" by auto
    then have "card (set (pendingPromises w)) \<le> card {h}" by (rule card_mono[rotated]) simp
    with distinct_card[OF d] show ?thesis by simp
  qed
qed

lemma tasks_at_most_one:
  assumes "store_inv w"
  shows "length (tasks w) \<le> 1"
proof (cases "policyRefreshPromise (cl w)")
  case None
  with store_invD(2)[OF assms] show ?thesis by simp
next
  case (Some h)
  with store_invD(3)[OF assms Some] show ?thesis by auto
qed

lemma delivered_same_value:
  assumes "store_inv w" "x \<in> set (delivered w)" "y \<in> set (delivered w)"
    and "fst (snd x) = Some h" "fst (snd y) = Some h"
  shows "snd (snd x) = snd (snd y)"
proof -
  from store_invD(6)[OF assms(1,2,4)] store_invD(6)[OF assms(1,3,5)]
  have "Fulfilled (snd (snd x)) = Fulfilled (snd (snd y))" by simp
  then show ?thesis by simp
qed

lemma owner_resets_field:
  assumes "store_inv w" "policyRefreshPromise (cl w) = Some h" "tasks w = []"
  shows "\<exists>c w'. owners w = [(c, h)] \<and> step conv w (ResumeOwner c h) = Some w'
           \<and> policyRefreshPromise (cl w') = None \<and> netCalls w' = netCalls w"
proof -
  from store_invD(3)[OF assms(1,2)] assms(3) obtain c where
    l: "h < length (promises w)" and o: "owners w = [(c, h)]" and p: "promises w ! h \<noteq> Pending"
    by auto
  from p obtain q where q: "promises w ! h = Fulfilled q" by (cases "promises w ! h") simp_all
  from l o q show ?thesis by (simp add: resumeOwner_def)
qed

lemma body_always_finishes:
  assumes "store_inv w" "tasks w \<noteq> []"
  shows "\<exists>h w'. policyRefreshPromise (cl w) = Some h
           \<and> (step conv w (FetchDone h fr) = Some w' \<or> step conv w (JsonDone h br t) = Some w')
           \<and> policyRefreshPromise (cl w') = Some h \<and> netCalls w' = netCalls w
           \<and> (tasks w' = [] \<or> tasks w' = [(h, AwaitJson, cachedPolicy (cl w'))])"
proof -
  from assms(2) store_invD(2)[OF assms(1)] obtain h where h: "policyRefreshPromise (cl w) = Some h"
    by (cases "policyRefreshPromise (cl w)") simp_all
  from store_invD(3)[OF assms(1) h] assms(2) obtain s where
    t: "tasks w = [(h, s, cachedPolicy (cl w))]" by auto
  show ?thesis
  proof (cases s)
    case AwaitFetch
    have "\<exists>w'. fetchDone w h fr = Some w' \<and> policyRefreshPromise (cl w') = Some h
            \<and> netCalls w' = netCalls w
            \<and> (tasks w' = [] \<or> tasks w' = [(h, AwaitJson, cachedPolicy (cl w'))])"
      using t h AwaitFetch
      by (cases fr) (simp_all add: fetchDone_def settle_def)
    with h show ?thesis by auto
  next
    case AwaitJson
    have "\<exists>w'. jsonDone conv w h br t = Some w' \<and> policyRefreshPromise (cl w') = Some h
            \<and> netCalls w' = netCalls w \<and> tasks w' = []"
    proof (cases br)
      case BodyRejected
      with t h AwaitJson show ?thesis by (simp add: jsonDone_def settle_def)
    next
      case (BodyJson j)
      with t h AwaitJson show ?thesis
        by (cases "refreshPolicy_policy conv j") (simp_all add: jsonDone_def settle_def)
    qed
    with h show ?thesis by auto
  qed
qed


section \<open>Before the first successful refresh\<close>












lemma first_access:
  "netCalls (getPolicyMaybeRefresh (boot key a) c now)
     = (if isStale (cl (boot key a)) now then 1 else 0)"
  by (simp add: get_stale get_fresh refreshPolicy_def boot_def WatchtowerClient_def Let_def)

lemma isStale_boot:
  "isStale (cl (boot key a)) now
     = js_gt (Fin (real_of_int now)) (js_times1000 (policyRefreshSeconds (mergeConfig a)))"
  by (simp add: isStale_def ageMs_def refreshWindowMs_def boot_def WatchtowerClient_def)


text \<open>
  The rounding decides the first access at the edge of the window: with
  \<open>policyRefreshSeconds = 0.5609999999999999\<close> the window is the double 561, so at
  clock reading 561 the policy is not stale and no network call is issued.
\<close>

lemma js_times1000_tie_example:
  "js_times1000 (Fin (78953730967339 / 140737488355328)) = Fin 561"
  by (simp only: js_times1000.simps toDouble_tie_example)

lemma first_access_at_window_edge:
  "netCalls
     (getPolicyMaybeRefresh
        (boot key (Some \<lparr>arg_apiBaseUrl = None, arg_sendEvents = None,
                           arg_policyRefreshSeconds = Some (Fin (78953730967339 / 140737488355328)),
                           arg_mode = None, arg_timeoutMs = None\<rparr>))
        c 561) = 0"
proof -
  have "\<not> isStale
          (cl (boot key (Some \<lparr>arg_apiBaseUrl = None, arg_sendEvents = None,
                           arg_policyRefreshSeconds = Some (Fin (78953730967339 / 140737488355328)),
                           arg_mode = None, arg_timeoutMs = None\<rparr>))) 561"
    by (simp add: isStale_boot mergeConfig_def js_times1000_tie_example del: js_times1000.simps)
  then show ?thesis by (simp add: first_access)
qed

section \<open>Properties of a check call\<close>

lemma checkImageJpeg_success:
  assumes "toUint8Array jpeg = Inr body"
  shows "checkImageJpeg c pol jpeg (Resolved True) (BodyJson j) =
         applyPolicyToImageResult
           \<lparr>decision = remoteDecision j, nsfwScore = remoteScore j, reasons = remoteReasons j\<rparr> pol"
  using assms by (simp add: checkImageJpeg_def checkImageJpeg_fn_def)

text \<open>
  Claim C5. When the image request succeeds (a 2xx response whose body parses), the policy
  in force has \<open>blockNsfwImages\<close> true and the body carries a numeric \<open>nsfwScore\<close>
  with \<open>nsfwScore >= nsfwThreshold\<close>, the result of \<open>checkImageJpeg\<close> has decision
  \<open>BLOCK\<close>, its reasons are the remote reasons followed by \<open>policy_nsfw\<close>, and the
  score is kept, whatever decision the remote sent.
\<close>

theorem checkImageJpeg_policy_nsfw_blocks:
  assumes "toUint8Array jpeg = Inr body"
    and "blockNsfwImages pol = JBool True"
    and "getProp j ''nsfwScore'' = Some (JNum s)"
    and "js_ge s (nsfwThreshold pol)"
  shows "decision (checkImageJpeg c pol jpeg (Resolved True) (BodyJson j)) = BLOCK
       \<and> reasons (checkImageJpeg c pol jpeg (Resolved True) (BodyJson j))
           = remoteReasons j @ [JStr ''policy_nsfw'']
       \<and> nsfwScore (checkImageJpeg c pol jpeg (Resolved True) (BodyJson j)) = Some s"
  using assms(2-4) by (simp add: checkImageJpeg_success[OF assms(1)] remoteScore_def)

theorem checkImageJpeg_policy_nsfw_blocks_witness:
  "toUint8Array (InUint8Array [0xFF, 0xD8]) = Inr [0xFF, 0xD8]
 \<and> blockNsfwImages DEFAULT_POLICY = JBool True
 \<and> js_ge (Fin 0.9) (nsfwThreshold DEFAULT_POLICY)
 \<and> decision (checkImageJpeg (WatchtowerClient ''k'' None) DEFAULT_POLICY (InUint8Array [0xFF, 0xD8])
       (Resolved True)
       (BodyJson (JObj [(''decision'', JStr ''ALLOW''), (''nsfwScore'', JNum (Fin 0.9)),
                        (''reasons'', JArr [JStr ''clean''])]))) = BLOCK
 \<and> reasons (checkImageJpeg (WatchtowerClient ''k'' None) DEFAULT_POLICY (InUint8Array [0xFF, 0xD8])
       (Resolved True)
       (BodyJson (JObj [(''decision'', JStr ''ALLOW''), (''nsfwScore'', JNum (Fin 0.9)),
                        (''reasons'', JArr [JStr ''clean''])])))
     = [JStr ''clean'', JStr ''policy_nsfw'']"
  using checkImageJpeg_policy_nsfw_blocks
    [of "InUint8Array [0xFF, 0xD8]" "[0xFF, 0xD8]" DEFAULT_POLICY
        "JObj [(''decision'', JStr ''ALLOW''), (''nsfwScore'', JNum (Fin 0.9)),
               (''reasons'', JArr [JStr ''clean''])]"
        "Fin 0.9" "WatchtowerClient ''k'' None"]
  by (simp add: DEFAULT_POLICY_def remoteReasons_def)

text \<open>
  Claim C6. Local enforcement never relaxes a decision: a result whose decision is
  \<open>BLOCK\<close> keeps decision \<open>BLOCK\<close> under every score, threshold and toggle, so it
  never becomes \<open>ALLOW\<close>; hence a successful image check whose remote decision was
  \<open>BLOCK\<close> ends with decision \<open>BLOCK\<close>.
\<close>

theorem applyPolicy_keeps_block:
  assumes "decision result = BLOCK"
  shows "decision (applyPolicyToImageResult result pol) = BLOCK
       \<and> decision (applyPolicyToImageResult result pol) \<noteq> ALLOW
       \<and> (\<forall>c jpeg body j. toUint8Array jpeg = Inr body \<and> remoteDecision j = BLOCK \<longrightarrow>
             decision (checkImageJpeg c pol jpeg (Resolved True) (BodyJson j)) = BLOCK)"
proof -
  have a: "decision (applyPolicyToImageResult r pol) = BLOCK" if "decision r = BLOCK" for r
    using that by simp
  have "decision (checkImageJpeg c pol jpeg (Resolved True) (BodyJson j)) = BLOCK"
    if "toUint8Array jpeg = Inr body" "remoteDecision j = BLOCK" for c jpeg body j
    using that by (simp add: checkImageJpeg_success[OF that(1)])
  with a[OF assms] show ?thesis by (simp add: BLOCK_def ALLOW_def)
qed

theorem applyPolicy_keeps_block_witness:
  "decision \<lparr>decision = BLOCK, nsfwScore = Some (Fin 0.1), reasons = [JStr ''mock_nsfw_detected'']\<rparr> = BLOCK
 \<and> applyPolicyToImageResult
       \<lparr>decision = BLOCK, nsfwScore = Some (Fin 0.1), reasons = [JStr ''mock_nsfw_detected'']\<rparr>
       DEFAULT_POLICY
     = \<lparr>decision = BLOCK, nsfwScore = Some (Fin 0.1), reasons = [JStr ''mock_nsfw_detected'']\<rparr>
 \<and> toUint8Array (InArrayBuffer [0xFF, 0xD8]) = Inr [0xFF, 0xD8]
 \<and> remoteDecision (JObj [(''decision'', JStr ''BLOCK''), (''nsfwScore'', JNum (Fin 0.1))]) = BLOCK
 \<and> decision (checkImageJpeg (WatchtowerClient ''k'' None) DEFAULT_POLICY
       (InArrayBuffer [0xFF, 0xD8]) (Resolved True)
       (BodyJson (JObj [(''decision'', JStr ''BLOCK''), (''nsfwScore'', JNum (Fin 0.1))]))) = BLOCK"
proof -
  have h: "decision \<lparr>decision = BLOCK, nsfwScore = Some (Fin 0.1),
                      reasons = [JStr ''mock_nsfw_detected'']\<rparr> = BLOCK" by simp
  have r: "remoteDecision (JObj [(''decision'', JStr ''BLOCK''), (''nsfwScore'', JNum (Fin 0.1))]) = BLOCK"
    by (simp add: remoteDecision_def BLOCK_def)
  have u: "toUint8Array (InArrayBuffer [0xFF, 0xD8]) = Inr [0xFF, 0xD8]" by simp
  note t = applyPolicy_keeps_block[OF h, of DEFAULT_POLICY]
  from t have "\<forall>c jpeg body j. toUint8Array jpeg = Inr body
        \<and> remoteDecision j = BLOCK \<longrightarrow>
             decision (checkImageJpeg c DEFAULT_POLICY jpeg (Resolved True) (BodyJson j)) = BLOCK"
    by blast
  with u r have "decision (checkImageJpeg (WatchtowerClient ''k'' None) DEFAULT_POLICY
       (InArrayBuffer [0xFF, 0xD8]) (Resolved True)
       (BodyJson (JObj [(''decision'', JStr ''BLOCK''), (''nsfwScore'', JNum (Fin 0.1))]))) = BLOCK"
    by simp
  with u r show ?thesis by (simp add: DEFAULT_POLICY_def)
qed

text \<open>
  Claim C7. On an initialised client \<open>checkText\<close> returns \<open>true\<close> when the
  classification request times out, fails in transport or completes with a status that is
  not 2xx (and also when the body of a 2xx response cannot be read); for every outcome of
  the request the caller receives a value, never an error.
\<close>

theorem checkText_fails_open:
  "Watchtower_checkText (Some c) txt meta (Rejected Timeout) br = Inr (JBool True)
 \<and> Watchtower_checkText (Some c) txt meta (Rejected TransportError) br = Inr (JBool True)
 \<and> Watchtower_checkText (Some c) txt meta (Resolved False) br = Inr (JBool True)
 \<and> Watchtower_checkText (Some c) txt meta (Resolved True) BodyRejected = Inr (JBool True)
 \<and> (\<exists>v. Watchtower_checkText (Some c) txt meta fr br = Inr v)"
  by (simp add: Watchtower_checkText_def requireClient_def checkText_def checkText_fn_def)

text \<open>
  Claim C9. For image bytes in one of the supported representations, \<open>checkImageJpeg\<close>
  returns decision \<open>ALLOW\<close>, no score and reasons \<open>[sdk_network_error]\<close> when the
  request never completed (timeout or transport error), and decision \<open>ALLOW\<close>, no score
  and reasons \<open>[cloud_unavailable]\<close> when it completed with a status that is not 2xx.
\<close>

theorem checkImageJpeg_fail_open_reasons:
  assumes "toUint8Array jpeg = Inr body"
  shows "checkImageJpeg c pol jpeg (Rejected e) br
           = \<lparr>decision = ALLOW, nsfwScore = None, reasons = [JStr ''sdk_network_error'']\<rparr>
       \<and> checkImageJpeg c pol jpeg (Resolved False) br
           = \<lparr>decision = ALLOW, nsfwScore = None, reasons = [JStr ''cloud_unavailable'']\<rparr>"
  using assms by (simp add: checkImageJpeg_def checkImageJpeg_fn_def)

theorem checkImageJpeg_fail_open_reasons_witness:
  "toUint8Array (InBlob (Some [0xFF, 0xD8])) = Inr [0xFF, 0xD8]
 \<and> checkImageJpeg (WatchtowerClient ''k'' None) DEFAULT_POLICY (InBlob (Some [0xFF, 0xD8]))
       (Rejected Timeout) BodyRejected
     = \<lparr>decision = JStr ''ALLOW'', nsfwScore = None, reasons = [JStr ''sdk_network_error'']\<rparr>
 \<and> checkImageJpeg (WatchtowerClient ''k'' None) DEFAULT_POLICY (InBlob (Some [0xFF, 0xD8]))
       (Resolved False) (BodyJson JNull)
     = \<lparr>decision = JStr ''ALLOW'', nsfwScore = None, reasons = [JStr ''cloud_unavailable'']\<rparr>"
  using checkImageJpeg_fail_open_reasons
    [of "InBlob (Some [0xFF, 0xD8])" "[0xFF, 0xD8]" "WatchtowerClient ''k'' None" DEFAULT_POLICY
        Timeout BodyRejected]
    checkImageJpeg_fail_open_reasons
    [of "InBlob (Some [0xFF, 0xD8])" "[0xFF, 0xD8]" "WatchtowerClient ''k'' None" DEFAULT_POLICY
        Timeout "BodyJson JNull"]
  by (simp add: ALLOW_def)

text \<open>
  Claim C1 says that an input which is none of \<open>Blob\<close>, \<open>ArrayBuffer\<close>,
  \<open>Uint8Array\<close> makes \<open>checkImageJpeg\<close> fail with an error raised to the caller. The
  code does not do that: \<open>toUint8Array\<close> raises, but inside the function handed to
  \<open>safeApiCall\<close>, so on an initialised client the caller receives the fallback result,
  decision \<open>ALLOW\<close> with reasons \<open>[sdk_network_error]\<close>, for every such input and
  every outcome of the network.
\<close>

theorem checkImageJpeg_unsupported_input_fails_open:
  "toUint8Array (InOther v) = Inl UnsupportedImageInput
 \<and> checkImageJpeg_fn c pol (InOther v) fr br = Inl UnsupportedImageInput
 \<and> Watchtower_checkImageJpeg (Some c) pol (InOther v) fr br
     = Inr \<lparr>decision = JStr ''ALLOW'', nsfwScore = None, reasons = [JStr ''sdk_network_error'']\<rparr>"
  by (simp add: Watchtower_checkImageJpeg_def requireClient_def checkImageJpeg_def
      checkImageJpeg_fn_def ALLOW_def)

text \<open>
  What the text path does guard against: a 2xx body with no permitted-flag, or with
  \<open>null\<close> there, gives \<open>true\<close>.
\<close>

lemma checkText_missing_flag_permits:
  assumes "getProp j ''isTextPermitted'' = None \<or> getProp j ''isTextPermitted'' = Some JNull"
  shows "checkText c txt meta (Resolved True) (BodyJson j) = JBool True"
proof -
  from assms have "nullish_or (getProp j ''isTextPermitted'') (JBool True) = JBool True"
    by auto
  then show ?thesis by (simp add: checkText_def checkText_fn_def Let_def)
qed

text \<open>
  Claim C8 says that a 2xx body whose permitted-flag is missing or is not a boolean makes
  \<open>checkText\<close> return \<open>true\<close>. The code does not do that for a flag that is not a
  boolean: \<open>??\<close> replaces only \<open>undefined\<close> and \<open>null\<close>, and no type test
  follows, so the flag is returned as received. With the body
  \<open>{"isTextPermitted": 0}\<close> the call returns the number \<open>0\<close>, which is neither
  \<open>true\<close> nor a boolean.
\<close>

theorem checkText_returns_nonboolean_flag:
  "checkText (WatchtowerClient ''k'' None) ''hello''
     \<lparr>userId = None, sessionId = None, contentId = None, meta_locale = None, channel = None\<rparr>
     (Resolved True) (BodyJson (JObj [(''isTextPermitted'', JNum (Fin 0))]))
   = JNum (Fin 0)
 \<and> checkText (WatchtowerClient ''k'' None) ''hello''
     \<lparr>userId = None, sessionId = None, contentId = None, meta_locale = None, channel = None\<rparr>
     (Resolved True) (BodyJson (JObj [(''isTextPermitted'', JNum (Fin 0))]))
   \<noteq> JBool True
 \<and> \<not> truthy
     (checkText (WatchtowerClient ''k'' None) ''hello''
        \<lparr>userId = None, sessionId = None, contentId = None, meta_locale = None, channel = None\<rparr>
        (Resolved True) (BodyJson (JObj [(''isTextPermitted'', JNum (Fin 0))])))"
  by (simp add: checkText_def checkText_fn_def)

section \<open>Properties of the policy store\<close>

text \<open>
  Claim C4. When the age of the cached policy, \<open>now - policyLastFetchMs\<close>, is at most
  \<open>policyRefreshSeconds * 1000\<close>, \<open>_getPolicyMaybeRefresh\<close> hands the caller the
  cached policy and changes nothing else: no network call is issued, no promise is
  created, the client object is as before.
\<close>

theorem fresh_policy_served_from_cache:
  assumes "js_le (ageMs (cl w) now) (refreshWindowMs (cl w))"
  shows "step conv w (CallGet c now)
           = Some (w\<lparr>delivered := delivered w @ [(c, None, cachedPolicy (cl w))]\<rparr>)
       \<and> netCalls (getPolicyMaybeRefresh w c now) = netCalls w
       \<and> cl (getPolicyMaybeRefresh w c now) = cl w
       \<and> promises (getPolicyMaybeRefresh w c now) = promises w
       \<and> tasks (getPolicyMaybeRefresh w c now) = tasks w"
proof -
  from js_le_not_gt[OF assms] have "\<not> isStale (cl w) now" by (simp add: isStale_def)
  from get_fresh[OF this] show ?thesis by simp
qed

theorem fresh_policy_served_from_cache_witness:
  "js_le (ageMs (cl (boot ''k'' None)) 60000) (refreshWindowMs (cl (boot ''k'' None)))
 \<and> netCalls (getPolicyMaybeRefresh (boot ''k'' None) 7 60000) = 0
 \<and> delivered (getPolicyMaybeRefresh (boot ''k'' None) 7 60000) = [(7, None, DEFAULT_POLICY)]"
proof -
  have h: "js_le (ageMs (cl (boot ''k'' None)) 60000) (refreshWindowMs (cl (boot ''k'' None)))"
    by (simp add: js_le_def ageMs_def refreshWindowMs_def boot_def WatchtowerClient_def
        mergeConfig_def DEFAULT_CONFIG_def)
  from fresh_policy_served_from_cache[OF h, of "\<lambda>v. NaN" 7] h show ?thesis
    by (simp add: boot_def WatchtowerClient_def)
qed

text \<open>
  Claim C2. In every world the event loop reaches from \<open>init\<close>: at most one promise of
  the table is pending and at most one refresh body is suspended, and the pending promise
  is the one in the field; one network call has been issued per promise ever created; a
  refresh requested while a promise is in the field (directly, or by a stale access)
  attaches to that promise and issues no network call; all callers served from one promise
  received the same policy. From a world with no promise in the field, a burst of N stale
  accesses (\<open>c0\<close> and \<open>others\<close>) followed by any outcome of the fetch runs to its end
  with exactly one more network call, the field reset, and one and the same policy
  delivered to all N callers. The field is reset on every path: a suspended body finishes
  under every outcome of its await, and once it has finished the waiting call resumes and
  resets the field.
\<close>

theorem single_flight_refresh:
  assumes "exec conv (boot key a) evs = Some w"
  shows "length (pendingPromises w) \<le> 1
       \<and> length (tasks w) \<le> 1
       \<and> (\<forall>h \<in> set (pendingPromises w). policyRefreshPromise (cl w) = Some h)
       \<and> netCalls w = length (promises w)
       \<and> (\<forall>h c now. policyRefreshPromise (cl w) = Some h \<longrightarrow>
             refreshPolicy w c = w\<lparr>attached := attached w @ [(c, h)]\<rparr>
           \<and> (isStale (cl w) now \<longrightarrow>
                 getPolicyMaybeRefresh w c now = w\<lparr>attached := attached w @ [(c, h)]\<rparr>))
       \<and> (\<forall>x \<in> set (delivered w). \<forall>y \<in> set (delivered w). \<forall>h.
             fst (snd x) = Some h \<and> fst (snd y) = Some h \<longrightarrow> snd (snd x) = snd (snd y))
       \<and> (\<forall>c0 t0 others fr br t.
             policyRefreshPromise (cl w) = None \<and> isStale (cl w) t0
               \<and> (\<forall>x \<in> set others. isStale (cl w) (snd x)) \<longrightarrow>
             (\<exists>w' p. exec conv w (burst (length (promises w)) c0 t0 others fr br t) = Some w'
                \<and> netCalls w' = Suc (netCalls w)
                \<and> policyRefreshPromise (cl w') = None
                \<and> delivered w' = delivered w
                     @ map (\<lambda>c. (c, Some (length (promises w)), p)) (c0 # map fst others)))
       \<and> (\<forall>h. policyRefreshPromise (cl w) = Some h \<and> tasks w = [] \<longrightarrow>
             (\<exists>c w'. owners w = [(c, h)] \<and> step conv w (ResumeOwner c h) = Some w'
                \<and> policyRefreshPromise (cl w') = None \<and> netCalls w' = netCalls w))
       \<and> (\<forall>fr br t. tasks w \<noteq> [] \<longrightarrow>
             (\<exists>h w'. policyRefreshPromise (cl w) = Some h
                \<and> (step conv w (FetchDone h fr) = Some w' \<or> step conv w (JsonDone h br t) = Some w')
                \<and> policyRefreshPromise (cl w') = Some h \<and> netCalls w' = netCalls w
                \<and> (tasks w' = [] \<or> tasks w' = [(h, AwaitJson, cachedPolicy (cl w'))])))"
proof -
  from assms have inv: "store_inv w" by (rule inv_reachable)
  have A: "length (pendingPromises w) \<le> 1" by (rule pending_at_most_one(1)[OF inv])
  have B: "length (tasks w) \<le> 1" by (rule tasks_at_most_one[OF inv])
  have C: "\<forall>h \<in> set (pendingPromises w). policyRefreshPromise (cl w) = Some h"
    by (rule pending_at_most_one(2)[OF inv])
  have D: "netCalls w = length (promises w)" by (rule store_invD(1)[OF inv])
  have E: "\<forall>h c now. policyRefreshPromise (cl w) = Some h \<longrightarrow>
             refreshPolicy w c = w\<lparr>attached := attached w @ [(c, h)]\<rparr>
           \<and> (isStale (cl w) now \<longrightarrow>
                 getPolicyMaybeRefresh w c now = w\<lparr>attached := attached w @ [(c, h)]\<rparr>)"
    by (simp add: refreshPolicy_attach get_stale)
  have F: "\<forall>x \<in> set (delivered w). \<forall>y \<in> set (delivered w). \<forall>h.
             fst (snd x) = Some h \<and> fst (snd y) = Some h \<longrightarrow> snd (snd x) = snd (snd y)"
    using delivered_same_value[OF inv] by blast
  have G: "\<forall>c0 t0 others fr br t.
             policyRefreshPromise (cl w) = None \<and> isStale (cl w) t0
               \<and> (\<forall>x \<in> set others. isStale (cl w) (snd x)) \<longrightarrow>
             (\<exists>w' p. exec conv w (burst (length (promises w)) c0 t0 others fr br t) = Some w'
                \<and> netCalls w' = Suc (netCalls w)
                \<and> policyRefreshPromise (cl w') = None
                \<and> delivered w' = delivered w
                     @ map (\<lambda>c. (c, Some (length (promises w)), p)) (c0 # map fst others))"
  proof (intro allI impI)
    fix c0 :: nat and t0 :: int and others :: "(nat \<times> int) list"
      and fr :: fetch_result and br :: body_result and t :: int
    assume h: "policyRefreshPromise (cl w) = None \<and> isStale (cl w) t0
               \<and> (\<forall>x \<in> set others. isStale (cl w) (snd x))"
    from h have h1: "policyRefreshPromise (cl w) = None" and h2: "isStale (cl w) t0"
      and h3: "\<forall>x \<in> set others. isStale (cl w) (snd x)" by blast+
    from burst_run[OF inv h1 h2 h3]
    show "\<exists>w' p. exec conv w (burst (length (promises w)) c0 t0 others fr br t) = Some w'
                \<and> netCalls w' = Suc (netCalls w)
                \<and> policyRefreshPromise (cl w') = None
                \<and> delivered w' = delivered w
                     @ map (\<lambda>c. (c, Some (length (promises w)), p)) (c0 # map fst others)"
      by blast
  qed
  have H: "\<forall>h. policyRefreshPromise (cl w) = Some h \<and> tasks w = [] \<longrightarrow>
             (\<exists>c w'. owners w = [(c, h)] \<and> step conv w (ResumeOwner c h) = Some w'
                \<and> policyRefreshPromise (cl w') = None \<and> netCalls w' = netCalls w)"
    using owner_resets_field[OF inv] by blast
  have I: "\<forall>fr br t. tasks w \<noteq> [] \<longrightarrow>
             (\<exists>h w'. policyRefreshPromise (cl w) = Some h
                \<and> (step conv w (FetchDone h fr) = Some w' \<or> step conv w (JsonDone h br t) = Some w')
                \<and> policyRefreshPromise (cl w') = Some h \<and> netCalls w' = netCalls w
                \<and> (tasks w' = [] \<or> tasks w' = [(h, AwaitJson, cachedPolicy (cl w'))]))"
    using body_always_finishes[OF inv] by blast
  from A B C D E F G H I show ?thesis by (intro conjI)
qed

theorem single_flight_refresh_witness:
  "exec (\<lambda>v. NaN) (boot ''k'' None) [CallGet 1 100000, CallGet 2 100001, CallRefresh 3]
     = Some \<lparr>cl = \<lparr>apiKey = ''k'', config = DEFAULT_CONFIG, cachedPolicy = DEFAULT_POLICY,
                   policyLastFetchMs = 0, policyRefreshPromise = Some 0\<rparr>,
              promises = [Pending], tasks = [(0, AwaitFetch, DEFAULT_POLICY)],
              owners = [(1, 0)], attached = [(2, 0), (3, 0)], delivered = [], netCalls = 1\<rparr>
 \<and> length (pendingPromises
       \<lparr>cl = \<lparr>apiKey = ''k'', config = DEFAULT_CONFIG, cachedPolicy = DEFAULT_POLICY,
                   policyLastFetchMs = 0, policyRefreshPromise = Some 0\<rparr>,
              promises = [Pending], tasks = [(0, AwaitFetch, DEFAULT_POLICY)],
              owners = [(1, 0)], attached = [(2, 0), (3, 0)], delivered = [], netCalls = 1\<rparr>) \<le> 1"
proof -
  have h: "exec (\<lambda>v. NaN) (boot ''k'' None) [CallGet 1 100000, CallGet 2 100001, CallRefresh 3]
     = Some \<lparr>cl = \<lparr>apiKey = ''k'', config = DEFAULT_CONFIG, cachedPolicy = DEFAULT_POLICY,
                   policyLastFetchMs = 0, policyRefreshPromise = Some 0\<rparr>,
              promises = [Pending], tasks = [(0, AwaitFetch, DEFAULT_POLICY)],
              owners = [(1, 0)], attached = [(2, 0), (3, 0)], delivered = [], netCalls = 1\<rparr>"
    by (simp add: boot_def WatchtowerClient_def mergeConfig_def getPolicyMaybeRefresh_def
        isStale_def ageMs_def refreshWindowMs_def DEFAULT_CONFIG_def refreshPolicy_def Let_def)
  from single_flight_refresh[OF h] h show ?thesis by blast
qed

text \<open>
  Claim C3. A refresh fails when the fetch is rejected (timeout, transport error), the
  response is not 2xx, the body cannot be read as JSON, or building the policy raises; a
  parsed body with missing fields is not a failure, its fields are defaulted. In every
  reachable world a failing callback leaves \<open>cachedPolicy\<close> and \<open>policyLastFetchMs\<close>
  as they were and fulfils the promise with the cached policy. A whole \<open>refreshPolicy\<close>
  call whose refresh fails returns the previously cached policy, leaves both fields
  unchanged and resets the promise field, so every later access that finds the policy
  stale issues a new network call, and a policy that was stale stays stale.
\<close>

theorem failed_refresh_keeps_cache:
  assumes "exec conv (boot key a) evs = Some w"
  shows "(\<forall>ev w'. refreshFails conv ev \<and> step conv w ev = Some w' \<longrightarrow>
            cachedPolicy (cl w') = cachedPolicy (cl w)
          \<and> policyLastFetchMs (cl w') = policyLastFetchMs (cl w)
          \<and> (\<exists>h. policyRefreshPromise (cl w) = Some h
                \<and> promises w' ! h = Fulfilled (cachedPolicy (cl w))))
       \<and> (\<forall>c fr br t. policyRefreshPromise (cl w) = None \<and> refreshResult conv fr br = None \<longrightarrow>
            (\<exists>w'. exec conv w (CallRefresh c # settleEvents (length (promises w)) fr br t
                                  @ [ResumeOwner c (length (promises w))]) = Some w'
               \<and> delivered w' = delivered w @ [(c, Some (length (promises w)), cachedPolicy (cl w))]
               \<and> cachedPolicy (cl w') = cachedPolicy (cl w)
               \<and> policyLastFetchMs (cl w') = policyLastFetchMs (cl w)
               \<and> policyRefreshPromise (cl w') = None
               \<and> (\<forall>c' now now'. isStale (cl w) now \<and> now \<le> now' \<longrightarrow>
                     isStale (cl w') now'
                   \<and> netCalls (getPolicyMaybeRefresh w' c' now') = Suc (netCalls w'))))"
proof -
  from assms have inv: "store_inv w" by (rule inv_reachable)
  have A: "\<forall>ev w'. refreshFails conv ev \<and> step conv w ev = Some w' \<longrightarrow>
            cachedPolicy (cl w') = cachedPolicy (cl w)
          \<and> policyLastFetchMs (cl w') = policyLastFetchMs (cl w)
          \<and> (\<exists>h. policyRefreshPromise (cl w) = Some h
                \<and> promises w' ! h = Fulfilled (cachedPolicy (cl w)))"
  proof (intro allI impI)
    fix ev :: event and w' :: world
    assume h: "refreshFails conv ev \<and> step conv w ev = Some w'"
    then have f: "refreshFails conv ev" and s: "step conv w ev = Some w'" by blast+
    from failed_step_settles[OF inv f s] obtain h where
      hh: "policyRefreshPromise (cl w) = Some h" and l: "h < length (promises w)"
      and w': "w' = settle w h (cachedPolicy (cl w))" by blast
    from l have "promises w' ! h = Fulfilled (cachedPolicy (cl w))"
      by (simp add: w' settle_fields)
    with hh show "cachedPolicy (cl w') = cachedPolicy (cl w)
          \<and> policyLastFetchMs (cl w') = policyLastFetchMs (cl w)
          \<and> (\<exists>h. policyRefreshPromise (cl w) = Some h
                \<and> promises w' ! h = Fulfilled (cachedPolicy (cl w)))"
      by (simp add: w' settle_fields)
  qed
  have B: "\<forall>c fr br t. policyRefreshPromise (cl w) = None \<and> refreshResult conv fr br = None \<longrightarrow>
            (\<exists>w'. exec conv w (CallRefresh c # settleEvents (length (promises w)) fr br t
                                  @ [ResumeOwner c (length (promises w))]) = Some w'
               \<and> delivered w' = delivered w @ [(c, Some (length (promises w)), cachedPolicy (cl w))]
               \<and> cachedPolicy (cl w') = cachedPolicy (cl w)
               \<and> policyLastFetchMs (cl w') = policyLastFetchMs (cl w)
               \<and> policyRefreshPromise (cl w') = None
               \<and> (\<forall>c' now now'. isStale (cl w) now \<and> now \<le> now' \<longrightarrow>
                     isStale (cl w') now'
                   \<and> netCalls (getPolicyMaybeRefresh w' c' now') = Suc (netCalls w')))"
  proof (intro allI impI)
    fix c :: nat and fr :: fetch_result and br :: body_result and t :: int
    assume h: "policyRefreshPromise (cl w) = None \<and> refreshResult conv fr br = None"
    then have idle: "policyRefreshPromise (cl w) = None"
      and fail: "refreshResult conv fr br = None" by blast+
    from refresh_run_failed[OF inv idle fail, of c t] obtain w' where
      run: "exec conv w (CallRefresh c # settleEvents (length (promises w)) fr br t
                                  @ [ResumeOwner c (length (promises w))]) = Some w'"
      and d: "delivered w' = delivered w @ [(c, Some (length (promises w)), cachedPolicy (cl w))]"
      and c: "cl w' = cl w" by blast
    have next_access: "\<forall>c' now now'. isStale (cl w) now \<and> now \<le> now' \<longrightarrow>
                     isStale (cl w') now'
                   \<and> netCalls (getPolicyMaybeRefresh w' c' now') = Suc (netCalls w')"
    proof (intro allI impI)
      fix c' :: nat and now now' :: int
      assume "isStale (cl w) now \<and> now \<le> now'"
      then have st: "isStale (cl w') now'" using isStale_mono[of "cl w" now now'] c by simp
      from idle c have "policyRefreshPromise (cl w') = None" by simp
      from stale_access_fetches[OF this st] st
      show "isStale (cl w') now'
                   \<and> netCalls (getPolicyMaybeRefresh w' c' now') = Suc (netCalls w')" by simp
    qed
    from run d c idle next_access
    show "\<exists>w'. exec conv w (CallRefresh c # settleEvents (length (promises w)) fr br t
                                  @ [ResumeOwner c (length (promises w))]) = Some w'
               \<and> delivered w' = delivered w @ [(c, Some (length (promises w)), cachedPolicy (cl w))]
               \<and> cachedPolicy (cl w') = cachedPolicy (cl w)
               \<and> policyLastFetchMs (cl w') = policyLastFetchMs (cl w)
               \<and> policyRefreshPromise (cl w') = None
               \<and> (\<forall>c' now now'. isStale (cl w) now \<and> now \<le> now' \<longrightarrow>
                     isStale (cl w') now'
                   \<and> netCalls (getPolicyMaybeRefresh w' c' now') = Suc (netCalls w'))"
      by (intro exI[of _ w']) simp
  qed
  from A B show ?thesis by (intro conjI)
qed

theorem failed_refresh_keeps_cache_witness:
  "exec (\<lambda>v. NaN) (boot ''k'' None) [CallGet 1 100000]
     = Some \<lparr>cl = \<lparr>apiKey = ''k'', config = DEFAULT_CONFIG, cachedPolicy = DEFAULT_POLICY,
                   policyLastFetchMs = 0, policyRefreshPromise = Some 0\<rparr>,
              promises = [Pending], tasks = [(0, AwaitFetch, DEFAULT_POLICY)],
              owners = [(1, 0)], attached = [], delivered = [], netCalls = 1\<rparr>
 \<and> refreshFails (\<lambda>v. NaN) (FetchDone 0 (Resolved False))
 \<and> step (\<lambda>v. NaN)
      \<lparr>cl = \<lparr>apiKey = ''k'', config = DEFAULT_CONFIG, cachedPolicy = DEFAULT_POLICY,
                   policyLastFetchMs = 0, policyRefreshPromise = Some 0\<rparr>,
              promises = [Pending], tasks = [(0, AwaitFetch, DEFAULT_POLICY)],
              owners = [(1, 0)], attached = [], delivered = [], netCalls = 1\<rparr>
      (FetchDone 0 (Resolved False))
     = Some \<lparr>cl = \<lparr>apiKey = ''k'', config = DEFAULT_CONFIG, cachedPolicy = DEFAULT_POLICY,
                   policyLastFetchMs = 0, policyRefreshPromise = Some 0\<rparr>,
              promises = [Fulfilled DEFAULT_POLICY], tasks = [],
              owners = [(1, 0)], attached = [], delivered = [], netCalls = 1\<rparr>
 \<and> refreshResult (\<lambda>v. NaN) (Rejected Timeout) BodyRejected = None
 \<and> policyRefreshPromise (cl (boot ''k'' None)) = None
 \<and> isStale (cl (boot ''k'' None)) 100000"
proof -
  have h: "exec (\<lambda>v. NaN) (boot ''k'' None) [CallGet 1 100000]
     = Some \<lparr>cl = \<lparr>apiKey = ''k'', config = DEFAULT_CONFIG, cachedPolicy = DEFAULT_POLICY,
                   policyLastFetchMs = 0, policyRefreshPromise = Some 0\<rparr>,
              promises = [Pending], tasks = [(0, AwaitFetch, DEFAULT_POLICY)],
              owners = [(1, 0)], attached = [], delivered = [], netCalls = 1\<rparr>"
    by (simp add: boot_def WatchtowerClient_def mergeConfig_def getPolicyMaybeRefresh_def
        isStale_def ageMs_def refreshWindowMs_def DEFAULT_CONFIG_def refreshPolicy_def Let_def)
  have s: "step (\<lambda>v. NaN)
      \<lparr>cl = \<lparr>apiKey = ''k'', config = DEFAULT_CONFIG, cachedPolicy = DEFAULT_POLICY,
                   policyLastFetchMs = 0, policyRefreshPromise = Some 0\<rparr>,
              promises = [Pending], tasks = [(0, AwaitFetch, DEFAULT_POLICY)],
              owners = [(1, 0)], attached = [], delivered = [], netCalls = 1\<rparr>
      (FetchDone 0 (Resolved False))
     = Some \<lparr>cl = \<lparr>apiKey = ''k'', config = DEFAULT_CONFIG, cachedPolicy = DEFAULT_POLICY,
                   policyLastFetchMs = 0, policyRefreshPromise = Some 0\<rparr>,
              promises = [Fulfilled DEFAULT_POLICY], tasks = [],
              owners = [(1, 0)], attached = [], delivered = [], netCalls = 1\<rparr>"
    by (simp add: fetchDone_def settle_def)
  have r: "refreshResult (\<lambda>v. NaN) (Rejected Timeout) BodyRejected = None"
    by (simp add: refreshResult_def)
  have i: "policyRefreshPromise (cl (boot ''k'' None)) = None
         \<and> isStale (cl (boot ''k'' None)) 100000"
    by (simp add: boot_def WatchtowerClient_def mergeConfig_def
        isStale_def ageMs_def refreshWindowMs_def DEFAULT_CONFIG_def)
  have e: "exec (\<lambda>v. NaN) (boot ''k'' None) [] = Some (boot ''k'' None)" by simp
  note t1 = failed_refresh_keeps_cache[OF h]
  note t2 = failed_refresh_keeps_cache[OF e]
  from t1 t2 h s r i show ?thesis by simp
qed




end
